theory Spec2Isabelle
  imports Complex_Main "HOL-Library.Word" "HOL-Library.Sublist"
begin

section \<open>Bytes, hexadecimal strings and case mapping\<close>

text \<open>
  The browser code reads every file into a \<^verbatim>\<open>Uint8Array\<close>; an element is a byte,
  modelled as an 8-bit word. JavaScript strings are modelled as \<^typ>\<open>string\<close>; the
  case mappings \<^verbatim>\<open>toUpperCase\<close> and \<^verbatim>\<open>toLowerCase\<close> are modelled on the ASCII letters
  (every other character is left as it is). The naming resolver, which compares file
  names of any alphabet in lower case, has its own model of strings, as sequences of
  UTF-16 code units.
\<close>

type_synonym byte = "8 word"

definition lowerLetters :: string where
  "lowerLetters = ''abcdefghijklmnopqrstuvwxyz''"

definition upperLetters :: string where
  "upperLetters = ''ABCDEFGHIJKLMNOPQRSTUVWXYZ''"

definition toUpperChar :: "char \<Rightarrow> char" where
  "toUpperChar c = (case map_of (zip lowerLetters upperLetters) c of Some u \<Rightarrow> u | None \<Rightarrow> c)"

definition toLowerChar :: "char \<Rightarrow> char" where
  "toLowerChar c = (case map_of (zip upperLetters lowerLetters) c of Some l \<Rightarrow> l | None \<Rightarrow> c)"

definition toUpperCase :: "string \<Rightarrow> string" where
  "toUpperCase s = map toUpperChar s"

definition toLowerCase :: "string \<Rightarrow> string" where
  "toLowerCase s = map toLowerChar s"

text \<open>\<^verbatim>\<open>n.toString(16)\<close>: the hexadecimal digits of a number, lower case, no padding.\<close>

definition hexDigits :: string where
  "hexDigits = ''0123456789abcdef''"

fun toString16 :: "nat \<Rightarrow> string" where
  "toString16 n =
     (if n < 16 then [hexDigits ! n]
      else toString16 (n div 16) @ [hexDigits ! (n mod 16)])"

declare toString16.simps [simp del]

text \<open>\<^verbatim>\<open>s.padStart(n, c)\<close> for a one-character pad string.\<close>

definition padStart :: "nat \<Rightarrow> char \<Rightarrow> string \<Rightarrow> string" where
  "padStart n c s = replicate (n - length s) c @ s"

text \<open>
  \<^verbatim>\<open>Array.from(bytes).map(b => b.toString(16).padStart(2, '0').toUpperCase()).join('')\<close>
  (the same function in \<^verbatim>\<open>script.js\<close> and in \<^verbatim>\<open>worker.js\<close>).
\<close>

definition bytesToHex :: "byte list \<Rightarrow> string" where
  "bytesToHex bytes =
     concat (map (\<lambda>b. toUpperCase (padStart 2 (CHR ''0'') (toString16 (unat b)))) bytes)"

text \<open>\<^verbatim>\<open>s.startsWith(p)\<close>: the first \<open>length p\<close> characters of \<open>s\<close> are \<open>p\<close>.\<close>

definition startsWith :: "string \<Rightarrow> string \<Rightarrow> bool" where
  "startsWith s p = (take (length p) s = p)"

section \<open>The signature tables and the signature matcher\<close>

text \<open>
  An entry of the worker's table has a hex pattern, a type and a category; an entry of
  the main table adds a description and the list of valid extensions.
\<close>

record signature =
  sig_hex :: string
  sig_type :: string
  sig_category :: string

record magicSignature = signature +
  sig_description :: string
  sig_extensions :: "string list"

definition MAGIC_SIGNATURES :: "signature list" where
  "MAGIC_SIGNATURES = [
    \<lparr>sig_hex = ''89504E47'', sig_type = ''PNG'', sig_category = ''Image''\<rparr>,
    \<lparr>sig_hex = ''FFD8FF'', sig_type = ''JPEG'', sig_category = ''Image''\<rparr>,
    \<lparr>sig_hex = ''47494638'', sig_type = ''GIF'', sig_category = ''Image''\<rparr>,
    \<lparr>sig_hex = ''25504446'', sig_type = ''PDF'', sig_category = ''Document''\<rparr>,
    \<lparr>sig_hex = ''504B0304'', sig_type = ''ZIP/DOCX/XLSX'', sig_category = ''Archive''\<rparr>,
    \<lparr>sig_hex = ''D0CF11E0'', sig_type = ''DOC/XLS/PPT'', sig_category = ''Document''\<rparr>,
    \<lparr>sig_hex = ''52617221'', sig_type = ''RAR'', sig_category = ''Archive''\<rparr>,
    \<lparr>sig_hex = ''377ABCAF'', sig_type = ''7Z'', sig_category = ''Archive''\<rparr>,
    \<lparr>sig_hex = ''1F8B'', sig_type = ''GZIP'', sig_category = ''Archive''\<rparr>,
    \<lparr>sig_hex = ''4D5A'', sig_type = ''EXE/DLL'', sig_category = ''Executable''\<rparr>,
    \<lparr>sig_hex = ''7F454C46'', sig_type = ''ELF'', sig_category = ''Executable''\<rparr>,
    \<lparr>sig_hex = ''494433'', sig_type = ''MP3'', sig_category = ''Audio''\<rparr>,
    \<lparr>sig_hex = ''1A45DFA3'', sig_type = ''MKV/WEBM'', sig_category = ''Video''\<rparr>,
    \<lparr>sig_hex = ''00000018'', sig_type = ''MP4'', sig_category = ''Video''\<rparr>,
    \<lparr>sig_hex = ''00000020'', sig_type = ''MP4'', sig_category = ''Video''\<rparr>]"

definition magicDatabase :: "magicSignature list" where
  "magicDatabase = [
    \<lparr>sig_hex = ''89504E47'', sig_type = ''PNG'', sig_category = ''Image'',
      sig_description = ''Portable Network Graphics'', sig_extensions = [''.png'']\<rparr>,
    \<lparr>sig_hex = ''FFD8FFE0'', sig_type = ''JPEG'', sig_category = ''Image'',
      sig_description = ''JPEG Image (JFIF)'', sig_extensions = [''.jpg'', ''.jpeg'']\<rparr>,
    \<lparr>sig_hex = ''FFD8FFE1'', sig_type = ''JPEG'', sig_category = ''Image'',
      sig_description = ''JPEG Image (EXIF)'', sig_extensions = [''.jpg'', ''.jpeg'']\<rparr>,
    \<lparr>sig_hex = ''FFD8FFDB'', sig_type = ''JPEG'', sig_category = ''Image'',
      sig_description = ''JPEG Image'', sig_extensions = [''.jpg'', ''.jpeg'']\<rparr>,
    \<lparr>sig_hex = ''FFD8FFEE'', sig_type = ''JPEG'', sig_category = ''Image'',
      sig_description = ''JPEG Image'', sig_extensions = [''.jpg'', ''.jpeg'']\<rparr>,
    \<lparr>sig_hex = ''47494638'', sig_type = ''GIF'', sig_category = ''Image'',
      sig_description = ''Graphics Interchange Format'', sig_extensions = [''.gif'']\<rparr>,
    \<lparr>sig_hex = ''424D'', sig_type = ''BMP'', sig_category = ''Image'',
      sig_description = ''Bitmap Image'', sig_extensions = [''.bmp'']\<rparr>,
    \<lparr>sig_hex = ''38425053'', sig_type = ''PSD'', sig_category = ''Image'',
      sig_description = ''Adobe Photoshop Document'', sig_extensions = [''.psd'']\<rparr>,
    \<lparr>sig_hex = ''49492A00'', sig_type = ''TIFF'', sig_category = ''Image'',
      sig_description = ''Tagged Image File Format'', sig_extensions = [''.tiff'', ''.tif'']\<rparr>,
    \<lparr>sig_hex = ''4D4D002A'', sig_type = ''TIFF'', sig_category = ''Image'',
      sig_description = ''Tagged Image File Format'', sig_extensions = [''.tiff'', ''.tif'']\<rparr>,
    \<lparr>sig_hex = ''00000100'', sig_type = ''ICO'', sig_category = ''Image'',
      sig_description = ''Windows Icon'', sig_extensions = [''.ico'']\<rparr>,
    \<lparr>sig_hex = ''52494646'', sig_type = ''WEBP/WAV/AVI'', sig_category = ''Media'',
      sig_description = ''RIFF Container'', sig_extensions = [''.webp'', ''.wav'', ''.avi'']\<rparr>,
    \<lparr>sig_hex = ''25504446'', sig_type = ''PDF'', sig_category = ''Document'',
      sig_description = ''Portable Document Format'', sig_extensions = [''.pdf'']\<rparr>,
    \<lparr>sig_hex = ''D0CF11E0A1B11AE1'', sig_type = ''DOC/XLS/PPT'', sig_category = ''Document'',
      sig_description = ''Microsoft Office Legacy'', sig_extensions = [''.doc'', ''.xls'', ''.ppt'']\<rparr>,
    \<lparr>sig_hex = ''504B0304'', sig_type = ''ZIP/DOCX/XLSX'', sig_category = ''Archive'',
      sig_description = ''ZIP Archive or Office Open XML'', sig_extensions = [''.zip'', ''.docx'', ''.xlsx'', ''.pptx'', ''.jar'', ''.apk'']\<rparr>,
    \<lparr>sig_hex = ''504B0506'', sig_type = ''ZIP'', sig_category = ''Archive'',
      sig_description = ''ZIP Archive (empty)'', sig_extensions = [''.zip'']\<rparr>,
    \<lparr>sig_hex = ''504B0708'', sig_type = ''ZIP'', sig_category = ''Archive'',
      sig_description = ''ZIP Archive (spanned)'', sig_extensions = [''.zip'']\<rparr>,
    \<lparr>sig_hex = ''7B5C727466'', sig_type = ''RTF'', sig_category = ''Document'',
      sig_description = ''Rich Text Format'', sig_extensions = [''.rtf'']\<rparr>,
    \<lparr>sig_hex = ''52617221'', sig_type = ''RAR'', sig_category = ''Archive'',
      sig_description = ''RAR Archive'', sig_extensions = [''.rar'']\<rparr>,
    \<lparr>sig_hex = ''377ABCAF271C'', sig_type = ''7Z'', sig_category = ''Archive'',
      sig_description = ''7-Zip Archive'', sig_extensions = [''.7z'']\<rparr>,
    \<lparr>sig_hex = ''1F8B'', sig_type = ''GZIP'', sig_category = ''Archive'',
      sig_description = ''GZIP Compressed'', sig_extensions = [''.gz'', ''.gzip'']\<rparr>,
    \<lparr>sig_hex = ''425A68'', sig_type = ''BZ2'', sig_category = ''Archive'',
      sig_description = ''BZIP2 Compressed'', sig_extensions = [''.bz2'']\<rparr>,
    \<lparr>sig_hex = ''FD377A585A00'', sig_type = ''XZ'', sig_category = ''Archive'',
      sig_description = ''XZ Compressed'', sig_extensions = [''.xz'']\<rparr>,
    \<lparr>sig_hex = ''1F9D'', sig_type = ''Z'', sig_category = ''Archive'',
      sig_description = ''LZW Compressed'', sig_extensions = [''.z'']\<rparr>,
    \<lparr>sig_hex = ''494433'', sig_type = ''MP3'', sig_category = ''Audio'',
      sig_description = ''MP3 Audio (ID3)'', sig_extensions = [''.mp3'']\<rparr>,
    \<lparr>sig_hex = ''FFFB'', sig_type = ''MP3'', sig_category = ''Audio'',
      sig_description = ''MP3 Audio'', sig_extensions = [''.mp3'']\<rparr>,
    \<lparr>sig_hex = ''FFF3'', sig_type = ''MP3'', sig_category = ''Audio'',
      sig_description = ''MP3 Audio'', sig_extensions = [''.mp3'']\<rparr>,
    \<lparr>sig_hex = ''FFF2'', sig_type = ''MP3'', sig_category = ''Audio'',
      sig_description = ''MP3 Audio'', sig_extensions = [''.mp3'']\<rparr>,
    \<lparr>sig_hex = ''664C6143'', sig_type = ''FLAC'', sig_category = ''Audio'',
      sig_description = ''Free Lossless Audio Codec'', sig_extensions = [''.flac'']\<rparr>,
    \<lparr>sig_hex = ''4F676753'', sig_type = ''OGG'', sig_category = ''Audio'',
      sig_description = ''OGG Vorbis'', sig_extensions = [''.ogg'']\<rparr>,
    \<lparr>sig_hex = ''1A45DFA3'', sig_type = ''MKV/WEBM'', sig_category = ''Video'',
      sig_description = ''Matroska/WebM Video'', sig_extensions = [''.mkv'', ''.webm'']\<rparr>,
    \<lparr>sig_hex = ''464C56'', sig_type = ''FLV'', sig_category = ''Video'',
      sig_description = ''Flash Video'', sig_extensions = [''.flv'']\<rparr>,
    \<lparr>sig_hex = ''000001BA'', sig_type = ''MPEG'', sig_category = ''Video'',
      sig_description = ''MPEG Video'', sig_extensions = [''.mpg'', ''.mpeg'']\<rparr>,
    \<lparr>sig_hex = ''000001B3'', sig_type = ''MPEG'', sig_category = ''Video'',
      sig_description = ''MPEG Video'', sig_extensions = [''.mpg'', ''.mpeg'']\<rparr>,
    \<lparr>sig_hex = ''00000018'', sig_type = ''MP4'', sig_category = ''Video'',
      sig_description = ''MPEG-4 Video'', sig_extensions = [''.mp4'', ''.m4v'']\<rparr>,
    \<lparr>sig_hex = ''00000020'', sig_type = ''MP4'', sig_category = ''Video'',
      sig_description = ''MPEG-4 Video'', sig_extensions = [''.mp4'', ''.m4v'']\<rparr>,
    \<lparr>sig_hex = ''0000001C'', sig_type = ''MP4'', sig_category = ''Video'',
      sig_description = ''MPEG-4 Video'', sig_extensions = [''.mp4'', ''.m4v'']\<rparr>,
    \<lparr>sig_hex = ''4D5A'', sig_type = ''EXE/DLL'', sig_category = ''Executable'',
      sig_description = ''Windows Executable'', sig_extensions = [''.exe'', ''.dll'', ''.sys'']\<rparr>,
    \<lparr>sig_hex = ''7F454C46'', sig_type = ''ELF'', sig_category = ''Executable'',
      sig_description = ''Linux Executable'', sig_extensions = ['''']\<rparr>,
    \<lparr>sig_hex = ''CAFEBABE'', sig_type = ''CLASS'', sig_category = ''Executable'',
      sig_description = ''Java Class File'', sig_extensions = [''.class'']\<rparr>,
    \<lparr>sig_hex = ''FEEDFACE'', sig_type = ''MACH-O'', sig_category = ''Executable'',
      sig_description = ''macOS Executable (32-bit)'', sig_extensions = ['''']\<rparr>,
    \<lparr>sig_hex = ''FEEDFACF'', sig_type = ''MACH-O'', sig_category = ''Executable'',
      sig_description = ''macOS Executable (64-bit)'', sig_extensions = ['''']\<rparr>,
    \<lparr>sig_hex = ''6465780A'', sig_type = ''DEX'', sig_category = ''Executable'',
      sig_description = ''Android Dalvik Executable'', sig_extensions = [''.dex'']\<rparr>,
    \<lparr>sig_hex = ''53514C69746520666F726D6174'', sig_type = ''SQLITE'', sig_category = ''Database'',
      sig_description = ''SQLite Database'', sig_extensions = [''.db'', ''.sqlite'', ''.sqlite3'']\<rparr>,
    \<lparr>sig_hex = ''3C3F786D6C'', sig_type = ''XML'', sig_category = ''Data'',
      sig_description = ''XML Document'', sig_extensions = [''.xml'']\<rparr>,
    \<lparr>sig_hex = ''3C21444F43545950'', sig_type = ''HTML'', sig_category = ''Web'',
      sig_description = ''HTML Document'', sig_extensions = [''.html'', ''.htm'']\<rparr>,
    \<lparr>sig_hex = ''3C68746D6C'', sig_type = ''HTML'', sig_category = ''Web'',
      sig_description = ''HTML Document'', sig_extensions = [''.html'', ''.htm'']\<rparr>,
    \<lparr>sig_hex = ''3C21646F63'', sig_type = ''HTML'', sig_category = ''Web'',
      sig_description = ''HTML Document'', sig_extensions = [''.html'', ''.htm'']\<rparr>,
    \<lparr>sig_hex = ''00010000'', sig_type = ''TTF'', sig_category = ''Font'',
      sig_description = ''TrueType Font'', sig_extensions = [''.ttf'']\<rparr>,
    \<lparr>sig_hex = ''4F54544F'', sig_type = ''OTF'', sig_category = ''Font'',
      sig_description = ''OpenType Font'', sig_extensions = [''.otf'']\<rparr>,
    \<lparr>sig_hex = ''774F4646'', sig_type = ''WOFF'', sig_category = ''Font'',
      sig_description = ''Web Open Font Format'', sig_extensions = [''.woff'']\<rparr>,
    \<lparr>sig_hex = ''774F4632'', sig_type = ''WOFF2'', sig_category = ''Font'',
      sig_description = ''Web Open Font Format 2'', sig_extensions = [''.woff2'']\<rparr>,
    \<lparr>sig_hex = ''25215053'', sig_type = ''PS'', sig_category = ''Document'',
      sig_description = ''PostScript'', sig_extensions = [''.ps'', ''.eps'']\<rparr>,
    \<lparr>sig_hex = ''4344303031'', sig_type = ''ISO'', sig_category = ''Disk'',
      sig_description = ''ISO Disk Image'', sig_extensions = [''.iso'']\<rparr>]"

text \<open>
  Both matchers are the same loop over their table,
  \<^verbatim>\<open>for (const sig of TABLE) { if (hex.startsWith(sig.hex)) { ...; break } }\<close>:
  the first entry whose pattern the header's hex string starts with, if there is one.
\<close>

fun firstMatch :: "string \<Rightarrow> ('a signature_scheme) list \<Rightarrow> ('a signature_scheme) option" where
  "firstMatch hex [] = None"
| "firstMatch hex (sig # sigs) =
     (if startsWith hex (sig_hex sig) then Some sig else firstMatch hex sigs)"

record typeInfo =
  ti_type :: string
  ti_category :: string

text \<open>\<^verbatim>\<open>detectType\<close> of \<^verbatim>\<open>worker.js\<close>, with its table as a parameter.\<close>

definition detectTypeIn :: "signature list \<Rightarrow> byte list \<Rightarrow> typeInfo" where
  "detectTypeIn table bytes =
     (let hex = bytesToHex (take 16 bytes) in
      case firstMatch hex table of
        Some sig \<Rightarrow> \<lparr>ti_type = sig_type sig, ti_category = sig_category sig\<rparr>
      | None \<Rightarrow> \<lparr>ti_type = ''Unknown'', ti_category = ''Unknown''\<rparr>)"

definition detectType :: "byte list \<Rightarrow> typeInfo" where
  "detectType bytes = detectTypeIn MAGIC_SIGNATURES bytes"

section \<open>Entropy\<close>

text \<open>
  \<^verbatim>\<open>calculateEntropy\<close> (the same function in \<^verbatim>\<open>script.js\<close>, \<^verbatim>\<open>worker.js\<close> and the
  command-line analyzer). The 256-bucket histogram is an array updated in place; the
  sum runs over the buckets in index order. JavaScript numbers are modelled as real
  numbers, so the model computes the formula exactly, where the code rounds the result
  of every operation to double precision. What depends on that rounding is outside the
  model.
\<close>

definition freqTable :: "byte list \<Rightarrow> nat list" where
  "freqTable bytes =
     foldl (\<lambda>freq b. freq[unat b := freq ! unat b + 1]) (replicate 256 0) bytes"

definition calculateEntropy :: "byte list \<Rightarrow> real" where
  "calculateEntropy bytes =
     (if length bytes = 0 then 0
      else
        let freq = freqTable bytes;
            len = length bytes
        in foldl (\<lambda>entropy i.
                    if freq ! i > 0
                    then (let p = real (freq ! i) / real len in entropy - p * log 2 p)
                    else entropy)
             0 [0..<256])"

record entropyLevel =
  el_level :: string
  el_class :: string
  el_description :: string

definition getEntropyLevel :: "real \<Rightarrow> entropyLevel" where
  "getEntropyLevel entropy =
     (if entropy < 4
      then \<lparr>el_level = ''Low'', el_class = ''entropy-low'', el_description = ''Text/Code''\<rparr>
      else if entropy < 7
      then \<lparr>el_level = ''Medium'', el_class = ''entropy-medium'', el_description = ''Normal file''\<rparr>
      else \<lparr>el_level = ''High'', el_class = ''entropy-high'',
             el_description = ''Encrypted/Compressed''\<rparr>)"

section \<open>The file analysis pipeline\<close>

text \<open>\<^verbatim>\<open>s.lastIndexOf(c)\<close> for a one-character search string: \<open>-1\<close> when absent.\<close>

fun lastIndexOf :: "'a list \<Rightarrow> 'a \<Rightarrow> int" where
  "lastIndexOf [] c = -1"
| "lastIndexOf (x # xs) c =
     (let r = lastIndexOf xs c in if r \<ge> 0 then r + 1 else if x = c then 0 else -1)"

definition getFileExtension :: "string \<Rightarrow> string" where
  "getFileExtension filename =
     (let lastDot = lastIndexOf filename (CHR ''.'') in
      if lastDot \<ge> 0 then toLowerCase (drop (nat lastDot) filename) else [])"

record fallbackType =
  fb_type :: string
  fb_category :: string
  fb_description :: string

text \<open>The object \<^verbatim>\<open>extensionMap\<close>, as the list of its own properties.\<close>

definition extensionMap :: "(string \<times> fallbackType) list" where
  "extensionMap = [
    (''.txt'', \<lparr>fb_type = ''Text'', fb_category = ''Text'', fb_description = ''Plain text file''\<rparr>),
    (''.log'', \<lparr>fb_type = ''Log'', fb_category = ''Text'', fb_description = ''Log file''\<rparr>),
    (''.md'', \<lparr>fb_type = ''Markdown'', fb_category = ''Text'', fb_description = ''Markdown document''\<rparr>),
    (''.csv'', \<lparr>fb_type = ''CSV'', fb_category = ''Data'', fb_description = ''Comma-separated values''\<rparr>),
    (''.json'', \<lparr>fb_type = ''JSON'', fb_category = ''Data'', fb_description = ''JSON data file''\<rparr>),
    (''.yaml'', \<lparr>fb_type = ''YAML'', fb_category = ''Data'', fb_description = ''YAML data file''\<rparr>),
    (''.yml'', \<lparr>fb_type = ''YAML'', fb_category = ''Data'', fb_description = ''YAML data file''\<rparr>),
    (''.cpp'', \<lparr>fb_type = ''C++'', fb_category = ''Code'', fb_description = ''C++ source file''\<rparr>),
    (''.c'', \<lparr>fb_type = ''C'', fb_category = ''Code'', fb_description = ''C source file''\<rparr>),
    (''.h'', \<lparr>fb_type = ''Header'', fb_category = ''Code'', fb_description = ''C/C++ header file''\<rparr>),
    (''.hpp'', \<lparr>fb_type = ''Header'', fb_category = ''Code'', fb_description = ''C++ header file''\<rparr>),
    (''.py'', \<lparr>fb_type = ''Python'', fb_category = ''Code'', fb_description = ''Python script''\<rparr>),
    (''.js'', \<lparr>fb_type = ''JavaScript'', fb_category = ''Code'', fb_description = ''JavaScript file''\<rparr>),
    (''.ts'', \<lparr>fb_type = ''TypeScript'', fb_category = ''Code'', fb_description = ''TypeScript file''\<rparr>),
    (''.java'', \<lparr>fb_type = ''Java'', fb_category = ''Code'', fb_description = ''Java source file''\<rparr>),
    (''.cs'', \<lparr>fb_type = ''C#'', fb_category = ''Code'', fb_description = ''C# source file''\<rparr>),
    (''.go'', \<lparr>fb_type = ''Go'', fb_category = ''Code'', fb_description = ''Go source file''\<rparr>),
    (''.rs'', \<lparr>fb_type = ''Rust'', fb_category = ''Code'', fb_description = ''Rust source file''\<rparr>),
    (''.rb'', \<lparr>fb_type = ''Ruby'', fb_category = ''Code'', fb_description = ''Ruby script''\<rparr>),
    (''.swift'', \<lparr>fb_type = ''Swift'', fb_category = ''Code'', fb_description = ''Swift source file''\<rparr>),
    (''.kt'', \<lparr>fb_type = ''Kotlin'', fb_category = ''Code'', fb_description = ''Kotlin source file''\<rparr>),
    (''.html'', \<lparr>fb_type = ''HTML'', fb_category = ''Web'', fb_description = ''HTML document''\<rparr>),
    (''.htm'', \<lparr>fb_type = ''HTML'', fb_category = ''Web'', fb_description = ''HTML document''\<rparr>),
    (''.css'', \<lparr>fb_type = ''CSS'', fb_category = ''Web'', fb_description = ''Cascading Style Sheet''\<rparr>),
    (''.scss'', \<lparr>fb_type = ''SCSS'', fb_category = ''Web'', fb_description = ''Sass stylesheet''\<rparr>),
    (''.less'', \<lparr>fb_type = ''LESS'', fb_category = ''Web'', fb_description = ''Less stylesheet''\<rparr>),
    (''.php'', \<lparr>fb_type = ''PHP'', fb_category = ''Web'', fb_description = ''PHP script''\<rparr>),
    (''.sql'', \<lparr>fb_type = ''SQL'', fb_category = ''Database'', fb_description = ''SQL script''\<rparr>),
    (''.sh'', \<lparr>fb_type = ''Shell'', fb_category = ''Script'', fb_description = ''Shell script''\<rparr>),
    (''.bash'', \<lparr>fb_type = ''Bash'', fb_category = ''Script'', fb_description = ''Bash script''\<rparr>),
    (''.bat'', \<lparr>fb_type = ''Batch'', fb_category = ''Script'', fb_description = ''Windows batch file''\<rparr>),
    (''.ps1'', \<lparr>fb_type = ''PowerShell'', fb_category = ''Script'', fb_description = ''PowerShell script''\<rparr>),
    (''.ini'', \<lparr>fb_type = ''INI'', fb_category = ''Config'', fb_description = ''Configuration file''\<rparr>),
    (''.cfg'', \<lparr>fb_type = ''Config'', fb_category = ''Config'', fb_description = ''Configuration file''\<rparr>),
    (''.conf'', \<lparr>fb_type = ''Config'', fb_category = ''Config'', fb_description = ''Configuration file''\<rparr>)]"
text \<open>
  A \<^verbatim>\<open>File\<close>: its name, relative path, size and MIME type, and what
  \<^verbatim>\<open>file.arrayBuffer()\<close> settles to: the content, or a rejection with an error message.
\<close>

record fileObject =
  f_name :: string
  f_webkitRelativePath :: string
  f_size :: nat
  f_type :: string
  f_arrayBuffer :: "string + byte list"

text \<open>
  The record \<^verbatim>\<open>result\<close> that \<^verbatim>\<open>analyzeFile\<close> resolves to. The field
  \<^verbatim>\<open>sizeFormatted\<close> (a display string) is left out.
\<close>

record analysis =
  r_name :: string
  r_path :: string
  r_size :: nat
  r_actualExtension :: string
  r_type :: string
  r_category :: string
  r_description :: string
  r_isCorrupt :: bool
  r_extensionMismatch :: bool
  r_entropy :: real
  r_entropyLevel :: entropyLevel
  r_hash :: string
  r_hexPreview :: string
  r_isEncrypted :: bool
  r_mimeType :: string

text \<open>
  The state \<^verbatim>\<open>analyzeFile\<close> works on: the global map \<^verbatim>\<open>currentFileData\<close> from file
  names to the files read so far, and the log of the components the pipeline has
  invoked (one entry per call site: \<^verbatim>\<open>calculateEntropy\<close>, the loop over
  \<^verbatim>\<open>magicDatabase\<close>, \<^verbatim>\<open>calculateSHA256\<close>).
\<close>

datatype component = EntropyScorer | SignatureMatcher | FingerprintHash

record world =
  currentFileData :: "string \<rightharpoonup> fileObject"
  invoked :: "component list"

definition invoke :: "component \<Rightarrow> world \<Rightarrow> world" where
  "invoke c w = w\<lparr>invoked := invoked w @ [c]\<rparr>"

definition initialResult :: "fileObject \<Rightarrow> analysis" where
  "initialResult file =
     \<lparr>r_name = f_name file,
      r_path = (if f_webkitRelativePath file \<noteq> [] then f_webkitRelativePath file
                else f_name file),
      r_size = f_size file,
      r_actualExtension = getFileExtension (f_name file),
      r_type = ''Unknown'',
      r_category = ''Unknown'',
      r_description = ''Unrecognized file type'',
      r_isCorrupt = False,
      r_extensionMismatch = False,
      r_entropy = 0,
      r_entropyLevel = \<lparr>el_level = ''Unknown'', el_class = [], el_description = []\<rparr>,
      r_hash = ''Calculating...'',
      r_hexPreview = [],
      r_isEncrypted = False,
      r_mimeType = (if f_type file \<noteq> [] then f_type file else ''unknown'')\<rparr>"

text \<open>The body of the matching loop's \<^verbatim>\<open>if\<close>, for the signature that matched.\<close>

definition applySignature :: "magicSignature \<Rightarrow> analysis \<Rightarrow> analysis" where
  "applySignature sig result =
     (let result = result\<lparr>r_type := sig_type sig, r_category := sig_category sig,
                          r_description := sig_description sig\<rparr>
      in if length (sig_extensions sig) > 0 \<and> r_actualExtension result \<noteq> []
         then (if r_actualExtension result \<notin> set (sig_extensions sig)
               then result\<lparr>r_extensionMismatch := True\<rparr> else result)
         else result)"

text \<open>The fallback to the extension table.\<close>

definition applyFallback :: "analysis \<Rightarrow> analysis" where
  "applyFallback result =
     (if r_type result = ''Unknown'' \<and> r_actualExtension result \<noteq> []
      then (case map_of extensionMap (r_actualExtension result) of
              Some fallback \<Rightarrow>
                result\<lparr>r_type := fb_type fallback, r_category := fb_category fallback,
                       r_description := fb_description fallback\<rparr>
            | None \<Rightarrow> result)
      else result)"

text \<open>
  \<^verbatim>\<open>analyzeFile\<close>. The promise it returns always resolves: a rejected read is caught
  and gives the record of an unreadable file. The digest is started and not awaited, so
  the record is resolved with the hash field still \<^verbatim>\<open>'Calculating...'\<close>.
\<close>

definition analyzeFile :: "fileObject \<Rightarrow> world \<Rightarrow> analysis \<times> world" where
  "analyzeFile file w =
     (let result = initialResult file in
      case f_arrayBuffer file of
        Inl message \<Rightarrow>
          (result\<lparr>r_type := ''Unreadable'', r_category := ''Error'',
                  r_description := ''Could not read file: '' @ message,
                  r_isCorrupt := True, r_hash := ''Error''\<rparr>, w)
      | Inr bytes \<Rightarrow>
          let w = w\<lparr>currentFileData := (currentFileData w)(f_name file \<mapsto> file)\<rparr> in
          if length bytes < 2
          then (result\<lparr>r_type := ''Empty/Corrupt'', r_category := ''Error'',
                        r_description := ''File too small to identify'',
                        r_isCorrupt := True, r_hash := ''N/A''\<rparr>, w)
          else
            let headerBytes = take 64 bytes;
                hex = bytesToHex headerBytes;
                result = result\<lparr>r_hexPreview := take 64 hex\<rparr>;
                sampleSize = min (length bytes) 65536;
                sampleBytes = take sampleSize bytes;
                w = invoke EntropyScorer w;
                result = result\<lparr>r_entropy := calculateEntropy sampleBytes\<rparr>;
                result = result\<lparr>r_entropyLevel := getEntropyLevel (r_entropy result)\<rparr>;
                result = result\<lparr>r_isEncrypted := (r_entropy result \<ge> 7.5)\<rparr>;
                w = invoke SignatureMatcher w;
                result = (case firstMatch hex magicDatabase of
                            Some sig \<Rightarrow> applySignature sig result
                          | None \<Rightarrow> result);
                result = applyFallback result;
                w = invoke FingerprintHash w
            in (result, w))"

section \<open>The naming resolver of \<^verbatim>\<open>organizeFiles\<close>\<close>

text \<open>
  Step 2 of \<^verbatim>\<open>organizeFiles\<close> computes every destination name before any write is
  dispatched. A job pairs a destination folder with an analysis record, of which the
  resolver reads the name only; the original file is looked up in
  \<^verbatim>\<open>currentFileData\<close> by that name, and a job whose file is missing is skipped.

  File names are chosen by the user and may hold any character, and the resolver
  compares them in lower case. So in this part a JavaScript string is the sequence of
  its UTF-16 code units, a code unit being a 16-bit word. Everything the resolver does
  to a name works code unit by code unit (the two regular expressions, which have no
  \<^verbatim>\<open>u\<close> flag, \<^verbatim>\<open>substring\<close>, \<^verbatim>\<open>trim\<close>, \<^verbatim>\<open>lastIndexOf\<close>, the template literals,
  and the comparison of strings that \<^verbatim>\<open>Set.has\<close> makes), except
  \<^verbatim>\<open>toLowerCase\<close>, which follows the case mapping of the Unicode standard. That
  function is not transcribed: it is a parameter \<open>lower\<close> of the resolver.
\<close>

type_synonym codeUnit = "16 word"

type_synonym ustring = "codeUnit list"

text \<open>A string literal of the source, all of whose characters are ASCII.\<close>

definition units :: "string \<Rightarrow> ustring" where
  "units s = map of_char s"

text \<open>\<^verbatim>\<open>`${n}`\<close> for a non-negative integer: its decimal digits.\<close>

definition decDigits :: ustring where
  "decDigits = units ''0123456789''"

fun toString10 :: "nat \<Rightarrow> ustring" where
  "toString10 n =
     (if n < 10 then [decDigits ! n]
      else toString10 (n div 10) @ [decDigits ! (n mod 10)])"

declare toString10.simps [simp del]

text \<open>
  The sanitization: \<^verbatim>\<open>.replace(/[<>:"/\\|?*\x00-\x1F]/g, '_')\<close>, then
  \<^verbatim>\<open>.replace(/^\.+/, '_')\<close>, then \<^verbatim>\<open>.substring(0, 200)\<close>. The underscore is
  \<open>0x5F\<close> and the dot is \<open>0x2E\<close>.
\<close>

definition illegalChars :: ustring where
  "illegalChars = units [CHR ''<'', CHR ''>'', CHR '':'', CHR 0x22, CHR ''/'', CHR 0x5C,
                         CHR ''|'', CHR ''?'', CHR ''*'']"

definition replaceIllegal :: "codeUnit \<Rightarrow> codeUnit" where
  "replaceIllegal c = (if c \<in> set illegalChars \<or> c \<le> 0x1F then 0x5F else c)"

definition replaceLeadingDots :: "ustring \<Rightarrow> ustring" where
  "replaceLeadingDots s =
     (case s of
        [] \<Rightarrow> []
      | c # cs \<Rightarrow> if c = 0x2E then 0x5F # dropWhile (\<lambda>d. d = 0x2E) cs else s)"

definition sanitize :: "ustring \<Rightarrow> ustring" where
  "sanitize name = take 200 (replaceLeadingDots (map replaceIllegal name))"

text \<open>
  \<^verbatim>\<open>s.trim()\<close> removes white space and line terminators at both ends: tab, line
  feed, vertical tab, form feed, carriage return, space, no-break space, the other
  space separators of Unicode, line and paragraph separator, and the byte order mark.
\<close>

definition whiteSpace :: "codeUnit list" where
  "whiteSpace = [0x09, 0x0A, 0x0B, 0x0C, 0x0D, 0x20, 0xA0, 0x1680,
                 0x2000, 0x2001, 0x2002, 0x2003, 0x2004, 0x2005, 0x2006, 0x2007, 0x2008,
                 0x2009, 0x200A, 0x2028, 0x2029, 0x202F, 0x205F, 0x3000, 0xFEFF]"

definition isWhiteSpace :: "codeUnit \<Rightarrow> bool" where
  "isWhiteSpace c = (c \<in> set whiteSpace)"

definition trim :: "ustring \<Rightarrow> ustring" where
  "trim s = rev (dropWhile isWhiteSpace (rev (dropWhile isWhiteSpace s)))"

text \<open>
  The sanitized name of a job; \<open>now\<close> is what \<^verbatim>\<open>Date.now()\<close> returns when the
  sanitized name is empty or blank.
\<close>

definition safeNameOf :: "nat \<Rightarrow> ustring \<Rightarrow> ustring" where
  "safeNameOf now name =
     (let safeName = sanitize name in
      if safeName = [] \<or> trim safeName = [] then units ''unnamed_'' @ toString10 now
      else safeName)"

text \<open>The candidate the duplicate loop builds from the sanitized name and the counter.\<close>

definition withCounter :: "ustring \<Rightarrow> nat \<Rightarrow> ustring" where
  "withCounter safeName counter =
     (let dotIdx = lastIndexOf safeName 0x2E in
      if dotIdx > 0
      then take (nat dotIdx) safeName @ units ''_'' @ toString10 counter
             @ drop (nat dotIdx) safeName
      else safeName @ units ''_'' @ toString10 counter)"

text \<open>
  The duplicate loop:
  \<^verbatim>\<open>while (folderSet.has(finalName.toLowerCase())) { finalName = ...; counter++; }\<close>.
  The set of claimed names is modelled as the list of its elements in insertion order.
  Whether the loop ends depends on what lower-casing does to the candidates, so the
  loop is a partial function: \<open>None\<close> stands for a loop that does not end.
\<close>

partial_function (option) findFreeName ::
  "(ustring \<Rightarrow> ustring) \<Rightarrow> ustring list \<Rightarrow> ustring \<Rightarrow> ustring \<Rightarrow> nat \<Rightarrow> ustring option" where
  "findFreeName lower folderSet safeName finalName counter =
     (if lower finalName \<in> set folderSet
      then findFreeName lower folderSet safeName (withCounter safeName counter) (counter + 1)
      else Some finalName)"

declare findFreeName.simps [code]

text \<open>
  A job (\<open>wj_fileName\<close> is \<^verbatim>\<open>job.fileInfo.name\<close>) and a finished job. The file blob is
  of any type.
\<close>

record writeJob =
  wj_folderName :: ustring
  wj_fileName :: ustring

record 'f readyJob =
  rj_folderName :: ustring
  rj_finalName :: ustring
  rj_fileBlob :: 'f

text \<open>
  The \<^verbatim>\<open>forEach\<close> over \<^verbatim>\<open>writeJobs\<close>. \<open>store\<close> gives the file blob that
  \<^verbatim>\<open>currentFileData\<close> holds for a name (\<open>None\<close> when there is no entry, or none with
  a file), \<open>clock i\<close> is what \<^verbatim>\<open>Date.now()\<close> returns during the \<open>i\<close>-th iteration,
  and \<open>usedNames\<close> is the map from folder names to their sets of claimed lower-case
  names.
\<close>

fun resolveLoop ::
  "(ustring \<Rightarrow> ustring) \<Rightarrow> (ustring \<rightharpoonup> 'f) \<Rightarrow> (nat \<Rightarrow> nat) \<Rightarrow> nat
     \<Rightarrow> (ustring \<rightharpoonup> ustring list) \<Rightarrow> writeJob list \<Rightarrow> 'f readyJob list option" where
  "resolveLoop lower store clock i usedNames [] = Some []"
| "resolveLoop lower store clock i usedNames (job # jobs) =
     (case store (wj_fileName job) of
        None \<Rightarrow> resolveLoop lower store clock (i + 1) usedNames jobs
      | Some originalFile \<Rightarrow>
          let folderSet = (case usedNames (wj_folderName job) of None \<Rightarrow> [] | Some s \<Rightarrow> s);
              safeName = safeNameOf (clock i) (wj_fileName job)
          in case findFreeName lower folderSet safeName safeName 1 of
               None \<Rightarrow> None
             | Some finalName \<Rightarrow>
                 let usedNames = usedNames(wj_folderName job \<mapsto> folderSet @ [lower finalName])
                 in case resolveLoop lower store clock (i + 1) usedNames jobs of
                      None \<Rightarrow> None
                    | Some readyJobs \<Rightarrow>
                        Some (\<lparr>rj_folderName = wj_folderName job, rj_finalName = finalName,
                               rj_fileBlob = originalFile\<rparr> # readyJobs))"

definition resolveNames ::
  "(ustring \<Rightarrow> ustring) \<Rightarrow> (ustring \<rightharpoonup> 'f) \<Rightarrow> (nat \<Rightarrow> nat) \<Rightarrow> writeJob list
     \<Rightarrow> 'f readyJob list option" where
  "resolveNames lower store clock writeJobs =
     resolveLoop lower store clock 0 Map.empty writeJobs"

section \<open>The scheduler \<^verbatim>\<open>DynamicTaskQueue\<close>\<close>

text \<open>
  The scheduler runs on the single JavaScript thread: \<^verbatim>\<open>process\<close> and the two
  settlement callbacks each run to completion, and a handler's promise settles in a later
  turn of the event loop. A run is therefore a sequence of settlements chosen by the
  environment, each naming one pending handler promise and what it settles to.

  The state holds the fields of the class (\<^verbatim>\<open>startTime\<close>, written once and never read,
  and the handler itself are left out), the promises that are pending, and a trace of
  every call the scheduler makes to the outside (the handler and the two callbacks),
  each with the value of \<^verbatim>\<open>activeCount\<close> and the length of the queue at the moment of
  the call. The fields \<open>onProgress\<close> and \<open>onComplete\<close> say whether a callback is installed.
  The handler is taken to return a promise, and an installed callback is taken to return
  normally, as the handlers and callbacks of \<^verbatim>\<open>analyzeFiles\<close> and
  \<^verbatim>\<open>organizeFiles\<close> do. The limit is an integer, as all limits in the repository
  are.
\<close>

record stats =
  st_completed :: nat
  st_total :: nat
  st_active :: int
  st_queueLen :: nat
  st_avgTime :: real

datatype ('a, 'r) call =
    HandlerCall 'a
  | ProgressCall stats
  | CompleteCall "'r list"

record ('a, 'r) taskQueue =
  concurrency :: int
  queue :: "'a list"
  activeCount :: int
  results :: "'r list"
  onProgress :: bool
  onComplete :: bool
  paused :: bool
  times :: "real list"
  totalTasks :: nat
  pending :: "'a list"
  trace :: "(('a, 'r) call \<times> int \<times> nat) list"

text \<open>The constructor, followed by the assignments of the two callbacks.\<close>

definition newQueue :: "int \<Rightarrow> bool \<Rightarrow> bool \<Rightarrow> ('a, 'r) taskQueue" where
  "newQueue c withProgress withComplete =
     \<lparr>concurrency = c, queue = [], activeCount = 0, results = [],
      onProgress = withProgress, onComplete = withComplete, paused = False,
      times = [], totalTasks = 0, pending = [], trace = []\<rparr>"

definition add :: "'a list \<Rightarrow> ('a, 'r) taskQueue \<Rightarrow> ('a, 'r) taskQueue" where
  "add items q = q\<lparr>queue := queue q @ items, totalTasks := totalTasks q + length items\<rparr>"

definition called :: "('a, 'r) call \<Rightarrow> ('a, 'r) taskQueue \<Rightarrow> ('a, 'r) taskQueue" where
  "called c q = q\<lparr>trace := trace q @ [(c, activeCount q, length (queue q))]\<rparr>"

text \<open>
  One round of the \<^verbatim>\<open>while\<close> loop of \<^verbatim>\<open>process\<close>: a slot is taken, the head of
  the queue is removed and the handler is called on it; the promise it returns is
  pending.
\<close>

definition dispatchOne :: "('a, 'r) taskQueue \<Rightarrow> ('a, 'r) taskQueue" where
  "dispatchOne q =
     (let q = q\<lparr>activeCount := activeCount q + 1\<rparr>;
          item = hd (queue q);
          q = q\<lparr>queue := tl (queue q)\<rparr>;
          q = called (HandlerCall item) q
      in q\<lparr>pending := pending q @ [item]\<rparr>)"

function fillSlots :: "('a, 'r) taskQueue \<Rightarrow> ('a, 'r) taskQueue" where
  "fillSlots q =
     (if activeCount q < concurrency q \<and> length (queue q) > 0
      then fillSlots (dispatchOne q)
      else q)"
  by pat_completeness auto
termination
  by (relation "measure (\<lambda>q. length (queue q))")
     (auto simp: dispatchOne_def called_def Let_def)

declare fillSlots.simps [simp del]

definition process :: "('a, 'r) taskQueue \<Rightarrow> ('a, 'r) taskQueue" where
  "process q =
     (if paused q then q
      else
        let q = fillSlots q in
        if activeCount q = 0 \<and> length (queue q) = 0 \<and> onComplete q
        then called (CompleteCall (results q)) q
        else q)"

definition start :: "('a, 'r) taskQueue \<Rightarrow> ('a, 'r) taskQueue" where
  "start q = process q"

definition getAverageTime :: "('a, 'r) taskQueue \<Rightarrow> real" where
  "getAverageTime q =
     (if length (times q) = 0 then 0
      else foldl (\<lambda>a b. a + b) 0 (times q) / real (length (times q)))"

text \<open>
  The \<^verbatim>\<open>then\<close> callback of a handler promise; \<open>duration\<close> is
  \<^verbatim>\<open>performance.now() - startStr\<close> as read in the callback.
\<close>

definition onFulfilled :: "'r \<Rightarrow> real \<Rightarrow> ('a, 'r) taskQueue \<Rightarrow> ('a, 'r) taskQueue" where
  "onFulfilled result duration q =
     (let q = q\<lparr>activeCount := activeCount q - 1\<rparr>;
          q = q\<lparr>results := results q @ [result]\<rparr>;
          q = q\<lparr>times := times q @ [duration]\<rparr>;
          q = (if length (times q) > 50 then q\<lparr>times := tl (times q)\<rparr> else q);
          q = (if onProgress q
               then called (ProgressCall
                      \<lparr>st_completed = length (results q), st_total = totalTasks q,
                       st_active = activeCount q, st_queueLen = length (queue q),
                       st_avgTime = getAverageTime q\<rparr>) q
               else q)
      in process q)"

text \<open>The \<^verbatim>\<open>catch\<close> callback: the failure is logged to the console, nothing else.\<close>

definition onRejected :: "('a, 'r) taskQueue \<Rightarrow> ('a, 'r) taskQueue" where
  "onRejected q = process (q\<lparr>activeCount := activeCount q - 1\<rparr>)"

datatype 'r outcome = Fulfilled 'r real | Rejected

text \<open>
  A settlement names a pending promise by its position. A position that names no
  pending promise is not a settlement that can happen (\<open>None\<close>).
\<close>

datatype 'r event = Settle nat "'r outcome"

fun settle :: "'r event \<Rightarrow> ('a, 'r) taskQueue \<Rightarrow> ('a, 'r) taskQueue option" where
  "settle (Settle k out) q =
     (if k < length (pending q)
      then
        let q = q\<lparr>pending := take k (pending q) @ drop (k + 1) (pending q)\<rparr> in
        Some (case out of Fulfilled result duration \<Rightarrow> onFulfilled result duration q
                        | Rejected \<Rightarrow> onRejected q)
      else None)"

fun run :: "('a, 'r) taskQueue \<Rightarrow> 'r event list \<Rightarrow> ('a, 'r) taskQueue option" where
  "run q [] = Some q"
| "run q (e # es) = (case settle e q of None \<Rightarrow> None | Some q' \<Rightarrow> run q' es)"

text \<open>A batch: the queue is created with its callbacks, fed and started.\<close>

definition batch :: "int \<Rightarrow> 'a list \<Rightarrow> ('a, 'r) taskQueue" where
  "batch c items = start (add items (newQueue c True True))"

section \<open>Properties of the entropy scorer\<close>

text \<open>The histogram holds, for every byte value, the number of its occurrences.\<close>

definition byteCount :: "byte list \<Rightarrow> nat \<Rightarrow> nat" where
  "byteCount bytes i = length (filter (\<lambda>b. unat b = i) bytes)"

lemma unat_byte_less: "unat (b :: byte) < 256"
  using unsigned_less[of b, where 'a=nat] by simp

lemma length_foldl_freq:
  "length (foldl (\<lambda>freq b. freq[unat b := Suc (freq ! unat b)]) fr bytes) = length fr"
  by (induction bytes arbitrary: fr) simp_all

lemma nth_foldl_freq:
  "i < length fr \<Longrightarrow>
   foldl (\<lambda>freq b. freq[unat b := Suc (freq ! unat b)]) fr bytes ! i = fr ! i + byteCount bytes i"
proof (induction bytes arbitrary: fr)
  case Nil
  then show ?case by (simp add: byteCount_def)
next
  case (Cons b bytes)
  have "foldl (\<lambda>freq b. freq[unat b := Suc (freq ! unat b)]) fr (b # bytes) ! i =
        (fr[unat b := Suc (fr ! unat b)]) ! i + byteCount bytes i"
    using Cons.prems by (simp add: Cons.IH)
  also have "\<dots> = fr ! i + byteCount (b # bytes) i"
    using Cons.prems by (cases "unat b = i") (simp_all add: byteCount_def)
  finally show ?case .
qed

lemma length_freqTable: "length (freqTable bytes) = 256"
  by (simp add: freqTable_def length_foldl_freq)

lemma nth_freqTable: "i < 256 \<Longrightarrow> freqTable bytes ! i = byteCount bytes i"
  by (simp add: freqTable_def nth_foldl_freq)

lemma sum_byteCount: "(\<Sum>i<256. byteCount bytes i) = length bytes"
proof (induction bytes)
  case Nil
  then show ?case by (simp add: byteCount_def)
next
  case (Cons b bytes)
  have "(\<Sum>i<256. byteCount (b # bytes) i) =
        (\<Sum>i<256. byteCount bytes i + (if i = unat b then 1 else 0))"
    by (rule sum.cong) (auto simp: byteCount_def)
  also have "\<dots> = (\<Sum>i<256. byteCount bytes i) + (\<Sum>i<256. if i = unat b then 1 else 0)"
    by (simp add: sum.distrib)
  also have "(\<Sum>i<256. if i = unat b then 1 else 0) = (1::nat)"
    using unat_byte_less[of b] by simp
  finally show ?case using Cons.IH by simp
qed

text \<open>The summand of bucket \<open>i\<close>.\<close>

definition bucketTerm :: "byte list \<Rightarrow> nat \<Rightarrow> real" where
  "bucketTerm bytes i =
     (if byteCount bytes i > 0
      then - (real (byteCount bytes i) / real (length bytes)
              * log 2 (real (byteCount bytes i) / real (length bytes)))
      else 0)"

lemma foldl_plus_sum_list:
  "foldl (\<lambda>a i. a + g i) (a0 :: real) xs = a0 + sum_list (map g xs)"
  by (induction xs arbitrary: a0) simp_all

lemma foldl_cong_set:
  "(\<And>a x. x \<in> set xs \<Longrightarrow> f a x = g a x) \<Longrightarrow> foldl f a xs = foldl g a xs"
  by (induction xs arbitrary: a) simp_all

lemma calculateEntropy_sum:
  assumes "bytes \<noteq> []"
  shows "calculateEntropy bytes = (\<Sum>i<256. bucketTerm bytes i)"
proof -
  have "calculateEntropy bytes =
        foldl (\<lambda>entropy i. entropy + bucketTerm bytes i) 0 [0..<256]"
    using assms unfolding calculateEntropy_def Let_def
    by (simp only: length_0_conv if_False)
       (rule foldl_cong_set, simp add: nth_freqTable bucketTerm_def)
  also have "\<dots> = sum_list (map (bucketTerm bytes) [0..<256])"
    by (simp only: foldl_plus_sum_list add_0)
  also have "\<dots> = (\<Sum>i<256. bucketTerm bytes i)"
    by (simp add: interv_sum_list_conv_sum_set_nat atLeast0LessThan)
  finally show ?thesis .
qed


lemma byteCount_le: "byteCount bytes i \<le> length bytes"
  by (simp add: byteCount_def)

lemma bucketTerm_nonneg: "0 \<le> bucketTerm bytes i"
proof (cases "byteCount bytes i > 0")
  case True
  then have n: "0 < length bytes" using byteCount_le[of bytes i] by arith
  define p where "p = real (byteCount bytes i) / real (length bytes)"
  have "0 < p" using True n by (simp add: p_def)
  moreover have "p \<le> 1" using byteCount_le[of bytes i] n by (simp add: p_def)
  ultimately have "log 2 p \<le> 0" by simp
  with \<open>0 < p\<close> have "p * log 2 p \<le> 0" by (simp add: mult_nonneg_nonpos)
  then show ?thesis using True by (simp add: bucketTerm_def p_def)
next
  case False
  then show ?thesis by (simp add: bucketTerm_def)
qed

lemma bucketTerm_upper:
  assumes "bytes \<noteq> []"
  shows "bucketTerm bytes i \<le>
         8 * (real (byteCount bytes i) / real (length bytes))
         + (1 / 256 - real (byteCount bytes i) / real (length bytes)) / ln 2"
proof (cases "byteCount bytes i > 0")
  case True
  define p where "p = real (byteCount bytes i) / real (length bytes)"
  have p: "0 < p" using True assms by (simp add: p_def)
  have ln2: "0 < ln (2::real)" by simp
  have "ln (1 / (256 * p)) \<le> 1 / (256 * p) - 1"
    using p by (intro ln_le_minus_one) simp
  moreover have "ln (1 / (256 * p)) = - ln 256 - ln p"
    using p by (simp add: ln_div ln_mult)
  moreover have "ln (256::real) = 8 * ln 2"
  proof -
    have "ln (256::real) = ln (2 ^ 8)" by simp
    also have "\<dots> = 8 * ln 2" by (simp only: ln_realpow of_nat_numeral)
    finally show ?thesis .
  qed
  ultimately have "- ln p \<le> 8 * ln 2 + (1 / (256 * p) - 1)" by simp
  then have "p * (- ln p) \<le> p * (8 * ln 2 + (1 / (256 * p) - 1))"
    using p by (intro mult_left_mono) simp_all
  also have "\<dots> = 8 * p * ln 2 + (1 / 256 - p)"
    using p by (simp add: field_simps)
  finally have "p * (- ln p) \<le> 8 * p * ln 2 + (1 / 256 - p)" .
  then have "p * (- ln p) / ln 2 \<le> (8 * p * ln 2 + (1 / 256 - p)) / ln 2"
    using ln2 by (intro divide_right_mono) simp_all
  also have "\<dots> = 8 * p + (1 / 256 - p) / ln 2"
    using ln2 by (simp add: field_simps)
  finally have "- (p * log 2 p) \<le> 8 * p + (1 / 256 - p) / ln 2"
    by (simp add: log_def)
  then show ?thesis using True by (simp add: bucketTerm_def p_def)
next
  case False
  then show ?thesis by (simp add: bucketTerm_def)
qed

lemma sum_fraction:
  assumes "bytes \<noteq> []"
  shows "(\<Sum>i<256. real (byteCount bytes i) / real (length bytes)) = 1"
proof -
  have "(\<Sum>i<256. real (byteCount bytes i) / real (length bytes)) =
        real (\<Sum>i<256. byteCount bytes i) / real (length bytes)"
    by (simp add: sum_divide_distrib)
  then show ?thesis using assms by (simp add: sum_byteCount)
qed

lemma calculateEntropy_nonneg: "0 \<le> calculateEntropy bytes"
proof (cases "bytes = []")
  case True
  then show ?thesis by (simp add: calculateEntropy_def)
next
  case False
  then show ?thesis by (simp add: calculateEntropy_sum sum_nonneg bucketTerm_nonneg)
qed

lemma calculateEntropy_le_8: "calculateEntropy bytes \<le> 8"
proof (cases "bytes = []")
  case True
  then show ?thesis by (simp add: calculateEntropy_def)
next
  case False
  have "calculateEntropy bytes = (\<Sum>i<256. bucketTerm bytes i)"
    using False by (rule calculateEntropy_sum)
  also have "\<dots> \<le> (\<Sum>i<256. 8 * (real (byteCount bytes i) / real (length bytes))
         + (1 / 256 - real (byteCount bytes i) / real (length bytes)) / ln 2)"
    by (rule sum_mono) (rule bucketTerm_upper[OF False])
  also have "\<dots> = (\<Sum>i<256. 8 * (real (byteCount bytes i) / real (length bytes)))
         + (\<Sum>i<256. (1 / 256 - real (byteCount bytes i) / real (length bytes)) / ln 2)"
    by (rule sum.distrib)
  also have "(\<Sum>i<256. 8 * (real (byteCount bytes i) / real (length bytes))) =
             8 * (\<Sum>i<256. real (byteCount bytes i) / real (length bytes))"
    by (simp only: sum_distrib_left)
  also have "(\<Sum>i<256. (1 / 256 - real (byteCount bytes i) / real (length bytes)) / ln 2) =
             ((\<Sum>i<(256::nat). (1::real) / 256)
               - (\<Sum>i<256. real (byteCount bytes i) / real (length bytes))) / ln 2"
    by (simp only: sum_divide_distrib[symmetric] sum_subtractf)
  also have "(\<Sum>i<(256::nat). (1::real) / 256) = 1" by simp
  also have "(\<Sum>i<256. real (byteCount bytes i) / real (length bytes)) = 1"
    by (rule sum_fraction[OF False])
  finally show ?thesis by simp
qed


lemma byteCount_full_iff:
  "byteCount bytes i = length bytes \<longleftrightarrow> (\<forall>b\<in>set bytes. unat b = i)"
proof
  assume eq: "byteCount bytes i = length bytes"
  show "\<forall>b\<in>set bytes. unat b = i"
  proof
    fix b assume "b \<in> set bytes"
    show "unat b = i"
    proof (rule ccontr)
      assume "unat b \<noteq> i"
      with \<open>b \<in> set bytes\<close> have "length (filter (\<lambda>b. unat b = i) bytes) < length bytes"
        by (intro length_filter_less) simp_all
      with eq show False by (simp add: byteCount_def)
    qed
  qed
next
  assume "\<forall>b\<in>set bytes. unat b = i"
  then have "filter (\<lambda>b. unat b = i) bytes = bytes" by (simp add: filter_id_conv)
  then show "byteCount bytes i = length bytes" by (simp add: byteCount_def)
qed

lemma byteCount_pos_iff: "0 < byteCount bytes i \<longleftrightarrow> (\<exists>b\<in>set bytes. unat b = i)"
  by (auto simp: byteCount_def filter_empty_conv)

lemma bucketTerm_zero_iff:
  assumes "0 < byteCount bytes i"
  shows "bucketTerm bytes i = 0 \<longleftrightarrow> byteCount bytes i = length bytes"
proof -
  have n: "0 < length bytes" using assms byteCount_le[of bytes i] by arith
  define p where "p = real (byteCount bytes i) / real (length bytes)"
  have p: "0 < p" using assms n by (simp add: p_def)
  have "bucketTerm bytes i = 0 \<longleftrightarrow> p * log 2 p = 0"
    using assms by (simp add: bucketTerm_def p_def)
  also have "\<dots> \<longleftrightarrow> log 2 p = 0" using p by simp
  also have "\<dots> \<longleftrightarrow> p = 1" using p by (simp add: log_def)
  also have "\<dots> \<longleftrightarrow> byteCount bytes i = length bytes"
    using n by (auto simp: p_def)
  finally show ?thesis .
qed

lemma calculateEntropy_zero_iff:
  assumes "bytes \<noteq> []"
  shows "calculateEntropy bytes = 0 \<longleftrightarrow> card (set bytes) = 1"
proof
  assume z: "calculateEntropy bytes = 0"
  then have "(\<Sum>i<256. bucketTerm bytes i) = 0"
    using assms by (simp add: calculateEntropy_sum)
  then have all0: "\<forall>i\<in>{..<256}. bucketTerm bytes i = 0"
    by (subst (asm) sum_nonneg_eq_0_iff) (simp_all add: bucketTerm_nonneg)
  obtain b where b: "b \<in> set bytes" using assms by (cases bytes) auto
  have pos: "0 < byteCount bytes (unat b)" using b by (auto simp: byteCount_pos_iff)
  have "bucketTerm bytes (unat b) = 0" using all0 unat_byte_less[of b] by simp
  then have "byteCount bytes (unat b) = length bytes"
    using bucketTerm_zero_iff[OF pos] by simp
  then have "\<forall>x\<in>set bytes. unat x = unat b" by (simp add: byteCount_full_iff)
  then have "set bytes = {b}" using b by (auto simp: word_unat_eq_iff)
  then show "card (set bytes) = 1" by simp
next
  assume "card (set bytes) = 1"
  then obtain b where sb: "set bytes = {b}" by (auto simp: card_1_singleton_iff)
  have "bucketTerm bytes i = 0" for i
  proof (cases "i = unat b")
    case True
    have "byteCount bytes i = length bytes"
      using sb True by (simp add: byteCount_full_iff)
    then show ?thesis using assms by (simp add: bucketTerm_def)
  next
    case False
    then have "byteCount bytes i = 0"
      using sb by (simp add: byteCount_def filter_empty_conv)
    then show ?thesis by (simp add: bucketTerm_def)
  qed
  then show "calculateEntropy bytes = 0"
    using assms by (simp add: calculateEntropy_sum)
qed

lemma byteCount_distinct:
  assumes "distinct bytes"
  shows "byteCount bytes i \<le> 1"
proof -
  have "byteCount bytes i = card ({b. unat b = i} \<inter> set bytes)"
    using assms by (simp add: byteCount_def distinct_length_filter)
  also have "\<dots> \<le> card {b :: byte. unat b = i}"
    by (intro card_mono) auto
  also have "\<dots> \<le> 1"
  proof (cases "\<exists>b :: byte. unat b = i")
    case True
    then obtain b :: byte where "unat b = i" by blast
    then have "{b :: byte. unat b = i} = {b}" by (auto simp: word_unat_eq_iff)
    then show ?thesis by simp
  next
    case False
    then have "{b :: byte. unat b = i} = {}" by auto
    then show ?thesis by simp
  qed
  finally show ?thesis .
qed

lemma calculateEntropy_distinct:
  assumes "distinct bytes" and "bytes \<noteq> []"
  shows "calculateEntropy bytes = log 2 (real (length bytes))"
proof -
  define n where "n = real (length bytes)"
  have n: "0 < n" using assms(2) by (simp add: n_def)
  have bt: "bucketTerm bytes i = real (byteCount bytes i) * (log 2 n / n)" for i
  proof (cases "byteCount bytes i = 0")
    case True
    then show ?thesis by (simp add: bucketTerm_def)
  next
    case False
    with byteCount_distinct[OF assms(1), of i] have one: "byteCount bytes i = 1" by arith
    have "log 2 (1 / n) = - log 2 n" using n by (simp add: log_divide)
    then show ?thesis using one by (simp add: bucketTerm_def n_def)
  qed
  have "calculateEntropy bytes = (\<Sum>i<256. real (byteCount bytes i) * (log 2 n / n))"
    using assms(2) by (simp add: calculateEntropy_sum bt)
  also have "\<dots> = (\<Sum>i<256. real (byteCount bytes i)) * (log 2 n / n)"
    by (simp only: sum_distrib_right)
  also have "\<dots> = real (\<Sum>i<256. byteCount bytes i) * (log 2 n / n)"
    by simp
  also have "\<dots> = log 2 n" using n by (simp add: sum_byteCount n_def)
  finally show ?thesis by (simp add: n_def)
qed

lemma distinct_128: "distinct (map of_nat [0..<128] :: byte list)"
proof -
  have "inj_on (of_nat :: nat \<Rightarrow> byte) {0..<128}"
    by (rule inj_on_subset[OF inj_on_word_of_nat]) simp
  then show ?thesis by (simp add: distinct_map)
qed

lemma log_128: "log 2 (128::real) = 7"
proof -
  have "log 2 (128::real) = log 2 (2 ^ 7)" by simp
  also have "\<dots> = 7" by (simp only: log_pow_cancel)
  finally show ?thesis .
qed

lemma calculateEntropy_empty: "calculateEntropy [] = 0"
  by (simp add: calculateEntropy_def)

text \<open>
  So the value of the entropy formula, computed exactly, lies between 0 and 8
  (\<open>calculateEntropy_nonneg\<close>, \<open>calculateEntropy_le_8\<close>), is 0 for the empty sequence, and
  for a non-empty sequence is 0 exactly when the sequence holds one distinct byte value
  (\<open>calculateEntropy_zero_iff\<close>). These are facts about the formula. The code evaluates
  it in double precision: every quotient, logarithm, product and difference is rounded,
  and \<^verbatim>\<open>Math.log2\<close> is specified only up to an approximation. The rounded sum is not
  bounded by 8: for a long sequence whose 256 byte values are almost equally frequent
  it can come out just above 8. The range of the value that the code returns is
  therefore not stated here.
\<close>


section \<open>Properties of the signature matcher\<close>

text \<open>\<^verbatim>\<open>bytes[i]\<close>: the byte at offset \<open>i\<close>, or \<^verbatim>\<open>undefined\<close> past the end.\<close>

definition byteAt :: "byte list \<Rightarrow> nat \<Rightarrow> byte option" where
  "byteAt bytes i = (if i < length bytes then Some (bytes ! i) else None)"

lemma take_eq_of_byteAt:
  assumes "\<forall>i<n. byteAt xs i = byteAt ys i"
  shows "take n xs = take n ys"
proof (rule nth_equalityI)
  show len: "length (take n xs) = length (take n ys)"
  proof (rule ccontr)
    assume ne: "length (take n xs) \<noteq> length (take n ys)"
    define k where "k = min (length xs) (length ys)"
    from ne have "k < n" and "length xs \<noteq> length ys"
      by (auto simp: k_def min_def split: if_splits)
    with assms have "byteAt xs k = byteAt ys k" by blast
    with \<open>length xs \<noteq> length ys\<close> show False
      by (auto simp: byteAt_def k_def min_def split: if_splits)
  qed
  fix i assume "i < length (take n xs)"
  then have "i < n" "i < length xs" by simp_all
  moreover from this len \<open>i < length (take n xs)\<close> have "i < length ys" by simp
  ultimately show "take n xs ! i = take n ys ! i"
    using assms by (auto simp: byteAt_def split: if_splits)
qed

text \<open>
  C10: \<^verbatim>\<open>detectType\<close> depends only on the first 16 bytes of its input: two byte
  sequences that agree at the offsets 0 to 15 (where a sequence that has ended agrees
  only with one that has ended too) get the same type and category.
\<close>

theorem detectType_depends_on_first_16_bytes:
  assumes "\<forall>i<16. byteAt xs i = byteAt ys i"
  shows "detectType xs = detectType ys"
  using take_eq_of_byteAt[OF assms] by (simp add: detectType_def detectTypeIn_def)

text \<open>Two inputs that differ only from offset 16 on.\<close>

definition sixteenAs :: "byte list" where
  "sixteenAs = replicate 16 0x41"

theorem detectType_depends_on_first_16_bytes_witness:
  "(sixteenAs @ [1]) \<noteq> (sixteenAs @ [2, 3])
   \<and> detectType (sixteenAs @ [1]) = detectType (sixteenAs @ [2, 3])"
proof -
  have "\<forall>i<16. byteAt (sixteenAs @ [1]) i = byteAt (sixteenAs @ [2, 3]) i"
    by (simp add: byteAt_def sixteenAs_def nth_append)
  from detectType_depends_on_first_16_bytes[OF this] show ?thesis by simp
qed

section \<open>Properties of the file analysis pipeline\<close>

lemma invoked_invoke: "invoked (invoke c w) = invoked w @ [c]"
  by (simp add: invoke_def)

lemma applyFallback_fields:
  "r_extensionMismatch (applyFallback r) = r_extensionMismatch r"
  "r_isCorrupt (applyFallback r) = r_isCorrupt r"
  "r_entropy (applyFallback r) = r_entropy r"
  "r_entropyLevel (applyFallback r) = r_entropyLevel r"
  "r_isEncrypted (applyFallback r) = r_isEncrypted r"
  "r_actualExtension (applyFallback r) = r_actualExtension r"
  "r_hash (applyFallback r) = r_hash r"
  by (simp_all add: applyFallback_def split: option.splits)

lemma applySignature_fields:
  "r_isCorrupt (applySignature sig r) = r_isCorrupt r"
  "r_entropy (applySignature sig r) = r_entropy r"
  "r_entropyLevel (applySignature sig r) = r_entropyLevel r"
  "r_isEncrypted (applySignature sig r) = r_isEncrypted r"
  "r_actualExtension (applySignature sig r) = r_actualExtension r"
  "r_hash (applySignature sig r) = r_hash r"
  "r_type (applySignature sig r) = sig_type sig"
  "r_category (applySignature sig r) = sig_category sig"
  "r_description (applySignature sig r) = sig_description sig"
  by (simp_all add: applySignature_def Let_def)

lemma applySignature_mismatch:
  "r_extensionMismatch (applySignature sig r) \<longleftrightarrow>
     r_extensionMismatch r \<or>
     (sig_extensions sig \<noteq> [] \<and> r_actualExtension r \<noteq> []
      \<and> r_actualExtension r \<notin> set (sig_extensions sig))"
  by (auto simp: applySignature_def Let_def)

text \<open>The effect of the matching loop on the record.\<close>

definition matched :: "magicSignature option \<Rightarrow> analysis \<Rightarrow> analysis" where
  "matched m r = (case m of Some sig \<Rightarrow> applySignature sig r | None \<Rightarrow> r)"

text \<open>The three ways \<^verbatim>\<open>analyzeFile\<close> ends.\<close>

lemma analyzeFile_read:
  assumes "f_arrayBuffer file = Inr bytes" and "2 \<le> length bytes"
  shows "fst (analyzeFile file w) =
           applyFallback (matched (firstMatch (bytesToHex (take 64 bytes)) magicDatabase)
             ((initialResult file)
               \<lparr>r_hexPreview := take 64 (bytesToHex (take 64 bytes)),
                r_entropy := calculateEntropy (take 65536 bytes),
                r_entropyLevel := getEntropyLevel (calculateEntropy (take 65536 bytes)),
                r_isEncrypted := (calculateEntropy (take 65536 bytes) \<ge> 7.5)\<rparr>))"
    and "invoked (snd (analyzeFile file w)) =
           invoked w @ [EntropyScorer, SignatureMatcher, FingerprintHash]"
    and "currentFileData (snd (analyzeFile file w)) = (currentFileData w)(f_name file \<mapsto> file)"
proof -
  have m: "min (length bytes) 65536 = length bytes \<or> min (length bytes) 65536 = 65536"
    by (simp add: min_def)
  have t: "take (min (length bytes) 65536) bytes = take 65536 bytes"
    by (simp add: min_def)
  show "fst (analyzeFile file w) =
           applyFallback (matched (firstMatch (bytesToHex (take 64 bytes)) magicDatabase)
             ((initialResult file)
               \<lparr>r_hexPreview := take 64 (bytesToHex (take 64 bytes)),
                r_entropy := calculateEntropy (take 65536 bytes),
                r_entropyLevel := getEntropyLevel (calculateEntropy (take 65536 bytes)),
                r_isEncrypted := (calculateEntropy (take 65536 bytes) \<ge> 7.5)\<rparr>))"
    using assms by (simp add: analyzeFile_def Let_def t matched_def split: option.splits)
  show "invoked (snd (analyzeFile file w)) =
           invoked w @ [EntropyScorer, SignatureMatcher, FingerprintHash]"
    using assms by (simp add: analyzeFile_def Let_def invoke_def)
  show "currentFileData (snd (analyzeFile file w)) = (currentFileData w)(f_name file \<mapsto> file)"
    using assms by (simp add: analyzeFile_def Let_def invoke_def)
qed

lemma analyzeFile_small:
  assumes "f_arrayBuffer file = Inr bytes" and "length bytes < 2"
  shows "analyzeFile file w =
           ((initialResult file)\<lparr>r_type := ''Empty/Corrupt'', r_category := ''Error'',
                r_description := ''File too small to identify'',
                r_isCorrupt := True, r_hash := ''N/A''\<rparr>,
            w\<lparr>currentFileData := (currentFileData w)(f_name file \<mapsto> file)\<rparr>)"
  using assms by (simp add: analyzeFile_def Let_def)

lemma analyzeFile_unreadable:
  assumes "f_arrayBuffer file = Inl message"
  shows "analyzeFile file w =
           ((initialResult file)\<lparr>r_type := ''Unreadable'', r_category := ''Error'',
                  r_description := ''Could not read file: '' @ message,
                  r_isCorrupt := True, r_hash := ''Error''\<rparr>, w)"
  using assms by (simp add: analyzeFile_def Let_def)

text \<open>
  C6: a file whose content is shorter than 2 bytes (the empty file included) gets a
  record with the corrupt flag set and the description "File too small to identify",
  and the pipeline returns without invoking the signature matcher, the entropy scorer
  or the fingerprint hash: the log of invoked components is unchanged, the entropy
  field keeps its initial value 0 and the hash field is \<^verbatim>\<open>'N/A'\<close>. (A file of two
  bytes or more invokes all three, in the order entropy, matcher, hash.)
\<close>

theorem too_small_short_circuit:
  assumes "f_arrayBuffer file = Inr bytes"
  shows "(length bytes < 2 \<longrightarrow>
            r_isCorrupt (fst (analyzeFile file w))
            \<and> r_description (fst (analyzeFile file w)) = ''File too small to identify''
            \<and> r_type (fst (analyzeFile file w)) = ''Empty/Corrupt''
            \<and> r_entropy (fst (analyzeFile file w)) = 0
            \<and> r_hash (fst (analyzeFile file w)) = ''N/A''
            \<and> invoked (snd (analyzeFile file w)) = invoked w)
       \<and> (2 \<le> length bytes \<longrightarrow>
            invoked (snd (analyzeFile file w)) =
              invoked w @ [EntropyScorer, SignatureMatcher, FingerprintHash])"
  using analyzeFile_small[OF assms, of w] analyzeFile_read(2)[OF assms, of w]
  by (simp add: initialResult_def)


text \<open>Example inputs.\<close>

definition exampleFile :: "string \<Rightarrow> byte list \<Rightarrow> fileObject" where
  "exampleFile name bytes =
     \<lparr>f_name = name, f_webkitRelativePath = [], f_size = length bytes, f_type = [],
      f_arrayBuffer = Inr bytes\<rparr>"

definition emptyWorld :: world where
  "emptyWorld = \<lparr>currentFileData = Map.empty, invoked = []\<rparr>"

definition pngHeader :: "byte list" where
  "pngHeader = [0x89, 0x50, 0x4E, 0x47]"

text \<open>The empty file, a file of one byte, and a file of four bytes.\<close>

theorem too_small_short_circuit_witness:
  "r_isCorrupt (fst (analyzeFile (exampleFile ''empty.bin'' []) emptyWorld))
   \<and> invoked (snd (analyzeFile (exampleFile ''empty.bin'' []) emptyWorld)) = []
   \<and> r_isCorrupt (fst (analyzeFile (exampleFile ''one.bin'' [0x41]) emptyWorld))
   \<and> invoked (snd (analyzeFile (exampleFile ''one.bin'' [0x41]) emptyWorld)) = []
   \<and> invoked (snd (analyzeFile (exampleFile ''photo.png'' pngHeader) emptyWorld)) =
       [EntropyScorer, SignatureMatcher, FingerprintHash]"
  using too_small_short_circuit[of "exampleFile ''empty.bin'' []" "[]" emptyWorld]
    too_small_short_circuit[of "exampleFile ''one.bin'' [0x41]" "[0x41]" emptyWorld]
    too_small_short_circuit[of "exampleFile ''photo.png'' pngHeader" pngHeader emptyWorld]
  by (simp add: exampleFile_def emptyWorld_def pngHeader_def)

lemma pngHeader_match:
  "firstMatch (bytesToHex (take 64 pngHeader)) magicDatabase =
     Some \<lparr>sig_hex = ''89504E47'', sig_type = ''PNG'', sig_category = ''Image'',
           sig_description = ''Portable Network Graphics'', sig_extensions = [''.png'']\<rparr>"
  by code_simp

lemma getFileExtension_examples:
  "getFileExtension ''image'' = []"
  "getFileExtension ''photo.txt'' = ''.txt''"
  "getFileExtension ''photo.png'' = ''.png''"
  "getFileExtension ''PHOTO.PNG'' = ''.png''"
  by code_simp+

text \<open>
  A file with the PNG header and no extension in its name: the PNG signature matches
  and declares the extension set \<open>{.png}\<close>, the file's extension (the empty string) is not
  in it, and yet the flag is not set.
\<close>

theorem extension_mismatch_counterexample:
  "\<not> r_extensionMismatch (fst (analyzeFile (exampleFile ''image'' pngHeader) emptyWorld))
   \<and> (\<exists>sig. firstMatch (bytesToHex (take 64 pngHeader)) magicDatabase = Some sig
         \<and> sig_extensions sig \<noteq> []
         \<and> getFileExtension ''image'' \<notin> set (sig_extensions sig))"
proof -
  have "f_arrayBuffer (exampleFile ''image'' pngHeader) = Inr pngHeader"
    and "2 \<le> length pngHeader"
    by (simp_all add: exampleFile_def pngHeader_def)
  from analyzeFile_read(1)[OF this, of emptyWorld]
  show ?thesis
    by (simp add: pngHeader_match matched_def applyFallback_fields applySignature_mismatch
        initialResult_def exampleFile_def getFileExtension_examples)
qed

text \<open>
  C7, amended: the extension-mismatch flag is set exactly when the file was read, holds
  at least two bytes, a signature matched (the first one in table order), that signature
  declares a non-empty list of valid extensions, the file's lower-cased extension is
  not empty, and it is not in that list. So a file without an extension is never
  flagged, and neither is a file whose signature declares no extensions.
\<close>

theorem extension_mismatch_iff:
  "r_extensionMismatch (fst (analyzeFile file w)) \<longleftrightarrow>
     (\<exists>bytes sig. f_arrayBuffer file = Inr bytes \<and> 2 \<le> length bytes
        \<and> firstMatch (bytesToHex (take 64 bytes)) magicDatabase = Some sig
        \<and> sig_extensions sig \<noteq> []
        \<and> getFileExtension (f_name file) \<noteq> []
        \<and> getFileExtension (f_name file) \<notin> set (sig_extensions sig))"
proof (cases "f_arrayBuffer file")
  case (Inl message)
  then show ?thesis by (simp add: analyzeFile_unreadable initialResult_def)
next
  case (Inr bytes)
  show ?thesis
  proof (cases "length bytes < 2")
    case True
    then show ?thesis using Inr by (simp add: analyzeFile_small initialResult_def)
  next
    case False
    then have "2 \<le> length bytes" by simp
    from analyzeFile_read(1)[OF Inr this, of w] show ?thesis
      using Inr False
      by (cases "firstMatch (bytesToHex (take 64 bytes)) magicDatabase")
         (simp_all add: matched_def applyFallback_fields applySignature_mismatch
            initialResult_def)
  qed
qed

text \<open>
  The PNG header \<open>89 50 4E 47\<close>: flagged under the name \<^verbatim>\<open>photo.txt\<close>, not flagged under
  \<^verbatim>\<open>photo.png\<close> or \<^verbatim>\<open>PHOTO.PNG\<close>, and not flagged without an extension.
\<close>

theorem extension_mismatch_iff_witness:
  "r_extensionMismatch (fst (analyzeFile (exampleFile ''photo.txt'' pngHeader) emptyWorld))
   \<and> \<not> r_extensionMismatch (fst (analyzeFile (exampleFile ''photo.png'' pngHeader) emptyWorld))
   \<and> \<not> r_extensionMismatch (fst (analyzeFile (exampleFile ''PHOTO.PNG'' pngHeader) emptyWorld))
   \<and> \<not> r_extensionMismatch (fst (analyzeFile (exampleFile ''image'' pngHeader) emptyWorld))"
proof -
  have len: "2 \<le> length pngHeader" by (simp add: pngHeader_def)
  show ?thesis
    using len
      extension_mismatch_iff[of "exampleFile ''photo.txt'' pngHeader" emptyWorld]
      extension_mismatch_iff[of "exampleFile ''photo.png'' pngHeader" emptyWorld]
      extension_mismatch_iff[of "exampleFile ''PHOTO.PNG'' pngHeader" emptyWorld]
      extension_mismatch_iff[of "exampleFile ''image'' pngHeader" emptyWorld]
    by (simp add: exampleFile_def pngHeader_match getFileExtension_examples)
qed


definition resultOf :: "fileObject \<Rightarrow> world \<Rightarrow> analysis" where
  "resultOf file w = fst (analyzeFile file w)"

lemma getEntropyLevel_level:
  "el_level (getEntropyLevel e) =
     (if e < 4 then ''Low'' else if e < 7 then ''Medium'' else ''High'')"
  by (simp add: getEntropyLevel_def)

text \<open>
  C9: \<^verbatim>\<open>getEntropyLevel\<close> labels a value below 4 as Low, a value in \<open>[4, 7)\<close> as Medium
  and a value of 7 or more as High. For a file that was read and holds at least two
  bytes, the record carries the entropy of the first 64 KiB, the label of that entropy,
  and the encrypted flag, which is set exactly when the entropy is at least 7.5; so a
  file with entropy in \<open>[7, 7.5)\<close> is labelled High and is not flagged.
\<close>

theorem entropy_bands_and_encrypted_flag:
  assumes "f_arrayBuffer file = Inr bytes" and "2 \<le> length bytes"
  shows "(el_level (getEntropyLevel e) = ''Low'' \<longleftrightarrow> e < 4)
       \<and> (el_level (getEntropyLevel e) = ''Medium'' \<longleftrightarrow> 4 \<le> e \<and> e < 7)
       \<and> (el_level (getEntropyLevel e) = ''High'' \<longleftrightarrow> 7 \<le> e)
       \<and> r_entropy (resultOf file w) = calculateEntropy (take 65536 bytes)
       \<and> r_entropyLevel (resultOf file w) = getEntropyLevel (r_entropy (resultOf file w))
       \<and> (r_isEncrypted (resultOf file w) \<longleftrightarrow> 7.5 \<le> r_entropy (resultOf file w))
       \<and> (7 \<le> r_entropy (resultOf file w) \<and> r_entropy (resultOf file w) < 7.5 \<longrightarrow>
            el_level (r_entropyLevel (resultOf file w)) = ''High''
            \<and> \<not> r_isEncrypted (resultOf file w))"
proof -
  have bands: "(el_level (getEntropyLevel e) = ''Low'' \<longleftrightarrow> e < 4)
       \<and> (el_level (getEntropyLevel e) = ''Medium'' \<longleftrightarrow> 4 \<le> e \<and> e < 7)
       \<and> (el_level (getEntropyLevel e) = ''High'' \<longleftrightarrow> 7 \<le> e)"
    by (simp add: getEntropyLevel_level)
  have e: "r_entropy (resultOf file w) = calculateEntropy (take 65536 bytes)"
    and l: "r_entropyLevel (resultOf file w) = getEntropyLevel (calculateEntropy (take 65536 bytes))"
    and f: "r_isEncrypted (resultOf file w) \<longleftrightarrow> 7.5 \<le> calculateEntropy (take 65536 bytes)"
    unfolding resultOf_def analyzeFile_read(1)[OF assms]
    by (cases "firstMatch (bytesToHex (take 64 bytes)) magicDatabase";
        simp add: matched_def applyFallback_fields applySignature_fields)+
  show ?thesis
    using bands e l f by (simp add: getEntropyLevel_level)
qed

text \<open>A file of 128 distinct byte values has entropy 7.\<close>

definition bytes128 :: "byte list" where
  "bytes128 = map of_nat [0..<128]"

theorem entropy_bands_and_encrypted_flag_witness:
  "r_entropy (resultOf (exampleFile ''data.bin'' bytes128) emptyWorld) = 7
   \<and> el_level (r_entropyLevel (resultOf (exampleFile ''data.bin'' bytes128) emptyWorld)) = ''High''
   \<and> \<not> r_isEncrypted (resultOf (exampleFile ''data.bin'' bytes128) emptyWorld)
   \<and> el_level (getEntropyLevel 3.9) = ''Low''
   \<and> el_level (getEntropyLevel 4) = ''Medium''
   \<and> el_level (getEntropyLevel 6.9) = ''Medium''
   \<and> el_level (getEntropyLevel 7) = ''High''"
proof -
  have len: "length bytes128 = 128" by (simp add: bytes128_def)
  have d: "distinct bytes128"
  proof -
    have "inj_on (of_nat :: nat \<Rightarrow> byte) {0..<128}"
      by (rule inj_on_subset[OF inj_on_word_of_nat]) simp
    then show ?thesis by (simp add: bytes128_def distinct_map)
  qed
  have ne: "bytes128 \<noteq> []" using len by auto
  have "log 2 (128::real) = log 2 (2 ^ 7)" by simp
  also have "\<dots> = 7" by (simp only: log_pow_cancel)
  finally have seven: "calculateEntropy (take 65536 bytes128) = 7"
    using calculateEntropy_distinct[OF d ne] len by simp
  have r: "f_arrayBuffer (exampleFile ''data.bin'' bytes128) = Inr bytes128"
    by (simp add: exampleFile_def)
  have l2: "2 \<le> length bytes128" using len by simp
  show ?thesis
    using entropy_bands_and_encrypted_flag[OF r l2, of 7 emptyWorld]
      entropy_bands_and_encrypted_flag[OF r l2, of "3.9" emptyWorld]
      entropy_bands_and_encrypted_flag[OF r l2, of 4 emptyWorld]
      entropy_bands_and_encrypted_flag[OF r l2, of "6.9" emptyWorld]
    by (simp add: seven)
qed

section \<open>First match in table order\<close>

text \<open>
  The matcher as the specification words it: a pattern may hold wildcard spans, which
  are skipped when the pattern is compared with the header. The specification does not
  say how a span is written; the command-line analyzer writes it as a run of dots, one
  dot per hex digit, and that notation is used here.
\<close>

fun wildcardPrefix :: "string \<Rightarrow> string \<Rightarrow> bool" where
  "wildcardPrefix [] hex = True"
| "wildcardPrefix (p # ps) [] = False"
| "wildcardPrefix (p # ps) (h # hs) = ((p = CHR ''.'' \<or> p = h) \<and> wildcardPrefix ps hs)"

fun spec_firstMatch :: "string \<Rightarrow> ('a signature_scheme) list \<Rightarrow> ('a signature_scheme) option" where
  "spec_firstMatch hex [] = None"
| "spec_firstMatch hex (sig # sigs) =
     (if wildcardPrefix (sig_hex sig) hex then Some sig else spec_firstMatch hex sigs)"

definition spec_detectTypeIn :: "signature list \<Rightarrow> byte list \<Rightarrow> typeInfo" where
  "spec_detectTypeIn table bytes =
     (case spec_firstMatch (bytesToHex (take 16 bytes)) table of
        Some sig \<Rightarrow> \<lparr>ti_type = sig_type sig, ti_category = sig_category sig\<rparr>
      | None \<Rightarrow> \<lparr>ti_type = ''Unknown'', ti_category = ''Unknown''\<rparr>)"

text \<open>
  The browser matchers compare with \<^verbatim>\<open>startsWith\<close>. Their tables are constants of
  the program, and no pattern in them holds a dot, so on them a literal prefix and a
  prefix with wildcard spans skipped are the same.
\<close>

lemma startsWith_prefix: "startsWith s p \<longleftrightarrow> prefix p s"
proof
  assume "startsWith s p"
  then have "s = p @ drop (length p) s"
    unfolding startsWith_def by (metis append_take_drop_id)
  then show "prefix p s" by (metis prefixI)
next
  assume "prefix p s"
  then show "startsWith s p" by (auto simp: startsWith_def prefix_def)
qed

lemma firstMatch_find:
  "firstMatch hex table = find (\<lambda>sig. prefix (sig_hex sig) hex) table"
  by (induction table) (simp_all add: startsWith_prefix)

lemma wildcardPrefix_literal:
  "CHR ''.'' \<notin> set p \<Longrightarrow> wildcardPrefix p hex \<longleftrightarrow> prefix p hex"
  by (induction p hex rule: wildcardPrefix.induct) auto

lemma spec_firstMatch_literal:
  "\<forall>sig\<in>set table. CHR ''.'' \<notin> set (sig_hex sig) \<Longrightarrow>
   spec_firstMatch hex table = firstMatch hex table"
  by (induction table) (simp_all add: wildcardPrefix_literal startsWith_prefix)

lemma tables_literal:
  "\<forall>sig\<in>set MAGIC_SIGNATURES. CHR ''.'' \<notin> set (sig_hex sig)"
  "\<forall>sig\<in>set magicDatabase. CHR ''.'' \<notin> set (sig_hex sig)"
  by code_simp+

lemma magicDatabase_types_known: "\<forall>sig\<in>set magicDatabase. sig_type sig \<noteq> ''Unknown''"
  by code_simp

lemma spec_firstMatch_find:
  "spec_firstMatch hex table = find (\<lambda>sig. wildcardPrefix (sig_hex sig) hex) table"
  by (induction table) simp_all

text \<open>
  The record of \<^verbatim>\<open>analyzeFile\<close> when the matching loop starts: the initial record with
  the hex preview and the entropy fields filled in.
\<close>

definition scored :: "fileObject \<Rightarrow> byte list \<Rightarrow> analysis" where
  "scored file content =
     (initialResult file)
       \<lparr>r_hexPreview := take 64 (bytesToHex (take 64 content)),
        r_entropy := calculateEntropy (take 65536 content),
        r_entropyLevel := getEntropyLevel (calculateEntropy (take 65536 content)),
        r_isEncrypted := (calculateEntropy (take 65536 content) \<ge> 7.5)\<rparr>"

text \<open>
  C5: the matcher of the specification returns the first signature in table order whose
  pattern matches the header, a pattern matching when it is a prefix of the header's
  hex string with its wildcard spans skipped (a literal prefix when it has none), and
  nothing when no pattern matches. Both browser matchers compute it on their tables:
  the worker's \<^verbatim>\<open>detectType\<close> returns the type and category of that signature for the
  first 16 bytes, and type and category Unknown when there is none;
  \<^verbatim>\<open>analyzeFile\<close> gives the record the type, category and description of that signature
  for the first 64 bytes, and when there is none the loop leaves the record with type
  and category Unknown, which then goes to the extension fallback.
\<close>

theorem matcher_first_match_wins:
  "(spec_firstMatch hex table = None \<longleftrightarrow>
        (\<forall>sig\<in>set table. \<not> wildcardPrefix (sig_hex sig) hex))
   \<and> (spec_firstMatch hex table = Some sig \<longleftrightarrow>
        (\<exists>i<length table. table ! i = sig \<and> wildcardPrefix (sig_hex sig) hex
           \<and> (\<forall>j<i. \<not> wildcardPrefix (sig_hex (table ! j)) hex)))
   \<and> (CHR ''.'' \<notin> set p \<longrightarrow> (wildcardPrefix p hex \<longleftrightarrow> prefix p hex))
   \<and> detectType bytes = spec_detectTypeIn MAGIC_SIGNATURES bytes
   \<and> (f_arrayBuffer file = Inr content \<and> 2 \<le> length content \<longrightarrow>
        (case spec_firstMatch (bytesToHex (take 64 content)) magicDatabase of
           Some sig \<Rightarrow>
             r_type (resultOf file w) = sig_type sig
             \<and> r_category (resultOf file w) = sig_category sig
             \<and> r_description (resultOf file w) = sig_description sig
         | None \<Rightarrow>
             resultOf file w = applyFallback (scored file content)
             \<and> r_type (scored file content) = ''Unknown''
             \<and> r_category (scored file content) = ''Unknown''))"
proof -
  have a: "spec_firstMatch hex table = None \<longleftrightarrow>
        (\<forall>sig\<in>set table. \<not> wildcardPrefix (sig_hex sig) hex)"
    by (auto simp: spec_firstMatch_find find_None_iff)
  have b: "spec_firstMatch hex table = Some sig \<longleftrightarrow>
        (\<exists>i<length table. table ! i = sig \<and> wildcardPrefix (sig_hex sig) hex
           \<and> (\<forall>j<i. \<not> wildcardPrefix (sig_hex (table ! j)) hex))"
    unfolding spec_firstMatch_find find_Some_iff by auto
  have c: "CHR ''.'' \<notin> set p \<longrightarrow> (wildcardPrefix p hex \<longleftrightarrow> prefix p hex)"
    by (simp add: wildcardPrefix_literal)
  have d: "detectType bytes = spec_detectTypeIn MAGIC_SIGNATURES bytes"
    by (simp add: spec_detectTypeIn_def detectType_def detectTypeIn_def
        spec_firstMatch_literal[OF tables_literal(1)])
  have e: "case spec_firstMatch (bytesToHex (take 64 content)) magicDatabase of
           Some sig \<Rightarrow>
             r_type (resultOf file w) = sig_type sig
             \<and> r_category (resultOf file w) = sig_category sig
             \<and> r_description (resultOf file w) = sig_description sig
         | None \<Rightarrow>
             resultOf file w = applyFallback (scored file content)
             \<and> r_type (scored file content) = ''Unknown''
             \<and> r_category (scored file content) = ''Unknown''"
    if r: "f_arrayBuffer file = Inr content" and l: "2 \<le> length content"
  proof (cases "firstMatch (bytesToHex (take 64 content)) magicDatabase")
    case None
    then show ?thesis
      unfolding resultOf_def analyzeFile_read(1)[OF r l]
        spec_firstMatch_literal[OF tables_literal(2)]
      by (simp add: matched_def scored_def initialResult_def)
  next
    case (Some s)
    then have "s \<in> set magicDatabase"
      by (auto simp: firstMatch_find find_Some_iff)
    then have "sig_type s \<noteq> ''Unknown''" using magicDatabase_types_known by blast
    then show ?thesis
      unfolding resultOf_def analyzeFile_read(1)[OF r l]
        spec_firstMatch_literal[OF tables_literal(2)] using Some
      by (simp add: matched_def applyFallback_def applySignature_fields)
  qed
  show ?thesis using a b c d e by blast
qed

lemma pngHeader_worker_match:
  "spec_firstMatch (bytesToHex (take 16 pngHeader)) MAGIC_SIGNATURES =
     Some \<lparr>sig_hex = ''89504E47'', sig_type = ''PNG'', sig_category = ''Image''\<rparr>"
  "spec_firstMatch (bytesToHex [0x00, 0x01]) MAGIC_SIGNATURES = None"
  "map_option sig_description (spec_firstMatch (bytesToHex (take 64 pngHeader)) magicDatabase)
     = Some ''Portable Network Graphics''"
  by code_simp+

text \<open>The PNG header in both matchers, and a header no signature matches.\<close>

theorem matcher_first_match_wins_witness:
  "detectType pngHeader = \<lparr>ti_type = ''PNG'', ti_category = ''Image''\<rparr>
   \<and> detectType [0x00, 0x01] = \<lparr>ti_type = ''Unknown'', ti_category = ''Unknown''\<rparr>
   \<and> r_type (resultOf (exampleFile ''photo.png'' pngHeader) emptyWorld) = ''PNG''
   \<and> r_category (resultOf (exampleFile ''photo.png'' pngHeader) emptyWorld) = ''Image''
   \<and> r_description (resultOf (exampleFile ''photo.png'' pngHeader) emptyWorld) =
        ''Portable Network Graphics''
   \<and> (wildcardPrefix ''89504E47'' (bytesToHex (take 16 pngHeader)) \<longleftrightarrow>
        prefix ''89504E47'' (bytesToHex (take 16 pngHeader)))"
proof -
  have r: "f_arrayBuffer (exampleFile ''photo.png'' pngHeader) = Inr pngHeader"
    by (simp add: exampleFile_def)
  have l: "2 \<le> length pngHeader" by (simp add: pngHeader_def)
  have m: "spec_firstMatch (bytesToHex (take 64 pngHeader)) magicDatabase =
      firstMatch (bytesToHex (take 64 pngHeader)) magicDatabase"
    by (rule spec_firstMatch_literal[OF tables_literal(2)])
  show ?thesis
    using r l
      matcher_first_match_wins[of "bytesToHex (take 16 pngHeader)" MAGIC_SIGNATURES
        "\<lparr>sig_hex = ''89504E47'', sig_type = ''PNG'', sig_category = ''Image''\<rparr>"
        "''89504E47''" pngHeader "exampleFile ''photo.png'' pngHeader" pngHeader emptyWorld]
      matcher_first_match_wins[of "bytesToHex (take 16 pngHeader)" MAGIC_SIGNATURES
        "\<lparr>sig_hex = ''89504E47'', sig_type = ''PNG'', sig_category = ''Image''\<rparr>"
        "''89504E47''" "[0x00, 0x01]" "exampleFile ''photo.png'' pngHeader" pngHeader emptyWorld]
    by (simp add: spec_detectTypeIn_def pngHeader_worker_match(1,2) m pngHeader_match)
qed

subsection \<open>The matcher of the command-line analyzer\<close>

text \<open>
  The loop over \<^verbatim>\<open>magicDatabase\<close> in \<^verbatim>\<open>analyzeFile\<close> of \<^verbatim>\<open>analyzer.cpp\<close>. The
  table is a global vector to which \<^verbatim>\<open>loadCustomSignatures\<close> appends the signatures
  of a file named on the command line, so here it is an argument. This matcher has a
  branch for a pattern with a wildcard span, written as four dots.
\<close>

text \<open>\<^verbatim>\<open>pattern.find("....")\<close>: the first position at which four dots start.\<close>

fun findDots :: "string \<Rightarrow> nat option" where
  "findDots [] = None"
| "findDots (c # cs) =
     (if take 4 (c # cs) = ''....'' then Some 0 else map_option Suc (findDots cs))"

text \<open>
  The test made for one signature: with a run of four dots in the pattern, the header
  must be at least as long as the pattern and equal the pattern in which the first such
  run is replaced by the header's own four characters at that place; without one, the
  pattern must be a prefix of the header.
\<close>

definition cppMatches :: "string \<Rightarrow> string \<Rightarrow> bool" where
  "cppMatches pattern hex =
     (case findDots pattern of
        Some wildcardPos \<Rightarrow>
          length hex \<ge> length pattern \<and>
          (let checkPattern = take wildcardPos pattern @ take 4 (drop wildcardPos hex)
                                @ drop (wildcardPos + 4) pattern
           in take (length checkPattern) hex = checkPattern)
      | None \<Rightarrow> length hex \<ge> length pattern \<and> take (length pattern) hex = pattern)"

text \<open>
  The fields of \<^verbatim>\<open>FileInfo\<close> that the loop writes, and the loop: it stops at the
  first signature that passes the test.
\<close>

record cppInfo =
  ci_type :: string
  ci_category :: string
  ci_description :: string

fun cppMatchLoop :: "string \<Rightarrow> magicSignature list \<Rightarrow> cppInfo \<Rightarrow> cppInfo" where
  "cppMatchLoop hex [] info = info"
| "cppMatchLoop hex (sig # sigs) info =
     (if cppMatches (sig_hex sig) hex
      then info\<lparr>ci_type := sig_type sig, ci_category := sig_category sig,
                ci_description := sig_description sig\<rparr>
      else cppMatchLoop hex sigs info)"

text \<open>The values the three fields have when the loop starts.\<close>

definition cppUnknown :: cppInfo where
  "cppUnknown = \<lparr>ci_type = ''Unknown'', ci_category = ''Unknown'',
                  ci_description = ''Unrecognized file type''\<rparr>"

text \<open>
  The loop returns the classification of the first signature in table order that passes
  the test, and leaves the record as it was when none does.
\<close>

lemma cppMatchLoop_first:
  "cppMatchLoop hex table info =
     (case find (\<lambda>sig. cppMatches (sig_hex sig) hex) table of
        Some sig \<Rightarrow> info\<lparr>ci_type := sig_type sig, ci_category := sig_category sig,
                         ci_description := sig_description sig\<rparr>
      | None \<Rightarrow> info)"
  by (induction table) simp_all

text \<open>
  The test skips the four characters at the first run of four dots and compares every
  other character of the pattern with the header.
\<close>

lemma findDots_Some:
  "findDots p = Some i \<Longrightarrow> i + 4 \<le> length p \<and> take 4 (drop i p) = ''....''"
proof (induction p arbitrary: i)
  case Nil
  then show ?case by simp
next
  case (Cons c cs)
  show ?case
  proof (cases "take 4 (c # cs) = ''....''")
    case True
    with Cons.prems have "i = 0" by simp
    moreover have "4 \<le> length (c # cs)"
    proof -
      from True have "length (take 4 (c # cs)) = length ''....''" by (simp only:)
      then show ?thesis by (simp add: min_def split: if_splits)
    qed
    ultimately show ?thesis using True by simp
  next
    case False
    with Cons.prems obtain j where j: "findDots cs = Some j" and i: "i = Suc j" by auto
    from Cons.IH[OF j] show ?thesis by (simp add: i)
  qed
qed

lemma cppMatches_literal:
  "findDots p = None \<Longrightarrow> cppMatches p hex \<longleftrightarrow> prefix p hex"
  by (auto simp: cppMatches_def prefix_def)
     (metis append_eq_conv_conj)

lemma cppMatches_span:
  assumes "findDots p = Some i"
  shows "cppMatches p hex \<longleftrightarrow>
           length p \<le> length hex \<and> take i hex = take i p
           \<and> take (length p - (i + 4)) (drop (i + 4) hex) = drop (i + 4) p"
proof (cases "length p \<le> length hex")
  case False
  then show ?thesis using assms by (simp add: cppMatches_def)
next
  case True
  from findDots_Some[OF assms] have i: "i + 4 \<le> length p" by simp
  define check where "check = take i p @ take 4 (drop i hex) @ drop (i + 4) p"
  have lc: "length check = length p" using i True by (simp add: check_def)
  have split: "take (length p) hex =
      take i hex @ take 4 (drop i hex) @ take (length p - (i + 4)) (drop (i + 4) hex)"
  proof -
    have "take (length p) hex = take i (take (length p) hex) @ drop i (take (length p) hex)"
      by (simp only: append_take_drop_id)
    also have "take i (take (length p) hex) = take i hex" using i by (simp add: min_def)
    also have "drop i (take (length p) hex) = take (length p - i) (drop i hex)"
      by (simp add: drop_take)
    also have "take (length p - i) (drop i hex) =
        take 4 (take (length p - i) (drop i hex)) @ drop 4 (take (length p - i) (drop i hex))"
      by (simp only: append_take_drop_id)
    also have "take 4 (take (length p - i) (drop i hex)) = take 4 (drop i hex)"
      using i by (simp add: min_def)
    also have "drop 4 (take (length p - i) (drop i hex)) =
        take (length p - (i + 4)) (drop (i + 4) hex)"
      by (simp add: drop_take add.commute)
    finally show ?thesis .
  qed
  have "cppMatches p hex \<longleftrightarrow> take (length p) hex = check"
    using assms True by (simp add: cppMatches_def Let_def check_def[symmetric] lc)
  also have "\<dots> \<longleftrightarrow> take i hex = take i p
           \<and> take (length p - (i + 4)) (drop (i + 4) hex) = drop (i + 4) p"
    unfolding split check_def using i True by (auto simp: min_def)
  finally show ?thesis using True by simp
qed

text \<open>
  For a pattern whose only dots are one run of four, the test is the match of the
  specification.
\<close>

lemma findDots_append:
  "CHR ''.'' \<notin> set a \<Longrightarrow> findDots (a @ ''....'' @ b) = Some (length a)"
  by (induction a) auto

lemma wildcardPrefix_append:
  "wildcardPrefix (a @ q) hex \<longleftrightarrow>
     length a \<le> length hex \<and> wildcardPrefix a (take (length a) hex)
     \<and> wildcardPrefix q (drop (length a) hex)"
proof (induction a arbitrary: hex)
  case Nil
  show ?case by simp
next
  case (Cons c cs)
  show ?case by (cases hex) (auto simp: Cons.IH)
qed

lemma wildcardPrefix_dots:
  "wildcardPrefix (''....'' @ b) hex \<longleftrightarrow> 4 \<le> length hex \<and> wildcardPrefix b (drop 4 hex)"
proof (cases hex)
  case Nil
  then show ?thesis by simp
next
  case (Cons h1 t1)
  show ?thesis
  proof (cases t1)
    case Nil
    with Cons show ?thesis by simp
  next
    case (Cons h2 t2)
    note c2 = this
    show ?thesis
    proof (cases t2)
      case Nil
      with c2 \<open>hex = h1 # t1\<close> show ?thesis by simp
    next
      case (Cons h3 t3)
      show ?thesis
        using c2 Cons \<open>hex = h1 # t1\<close> by (cases t3) simp_all
    qed
  qed
qed

lemma prefix_take: "prefix a hex \<longleftrightarrow> take (length a) hex = a"
  by (metis append_eq_conv_conj prefixE prefixI append_take_drop_id)

lemma cppMatches_wildcard:
  assumes "CHR ''.'' \<notin> set a" and "CHR ''.'' \<notin> set b"
  shows "cppMatches (a @ ''....'' @ b) hex \<longleftrightarrow> wildcardPrefix (a @ ''....'' @ b) hex"
proof -
  let ?p = "a @ ''....'' @ b"
  have l: "cppMatches ?p hex \<longleftrightarrow>
      length ?p \<le> length hex \<and> take (length a) hex = a
      \<and> take (length b) (drop (length a + 4) hex) = b"
    unfolding cppMatches_span[OF findDots_append[OF assms(1)]] by simp
  have r: "wildcardPrefix ?p hex \<longleftrightarrow>
      length a \<le> length hex \<and> take (length a) hex = a
      \<and> 4 \<le> length (drop (length a) hex)
      \<and> take (length b) (drop 4 (drop (length a) hex)) = b"
    unfolding wildcardPrefix_append[of a] wildcardPrefix_dots
      wildcardPrefix_literal[OF assms(1)] wildcardPrefix_literal[OF assms(2)]
      prefix_take
    by auto
  have "length b \<le> length (drop (length a + 4) hex)"
    if "take (length b) (drop (length a + 4) hex) = b"
    using arg_cong[OF that, of length] by (simp add: min_def split: if_splits)
  then show ?thesis
    unfolding l r by (auto simp: add.commute)
qed

text \<open>
  A table with a pattern that has a wildcard span between two literal patterns: a
  header that fits the span's pattern gets its classification, a header that only fits
  the later literal pattern gets that one, and a header that fits none keeps Unknown.
\<close>

definition cppExampleTable :: "magicSignature list" where
  "cppExampleTable =
     [\<lparr>sig_hex = ''424D'', sig_type = ''BMP'', sig_category = ''Image'',
       sig_description = ''Bitmap Image'', sig_extensions = [''.bmp'']\<rparr>,
      \<lparr>sig_hex = ''4944....4D50'', sig_type = ''Custom'', sig_category = ''Data'',
       sig_description = ''Custom record'', sig_extensions = []\<rparr>,
      \<lparr>sig_hex = ''4944'', sig_type = ''Tag'', sig_category = ''Data'',
       sig_description = ''Tagged data'', sig_extensions = []\<rparr>]"

lemma cppMatchLoop_examples:
  "cppMatchLoop ''49449A7C4D5000'' cppExampleTable cppUnknown =
     \<lparr>ci_type = ''Custom'', ci_category = ''Data'', ci_description = ''Custom record''\<rparr>"
  "cppMatchLoop ''49449A7C4D51'' cppExampleTable cppUnknown =
     \<lparr>ci_type = ''Tag'', ci_category = ''Data'', ci_description = ''Tagged data''\<rparr>"
  "cppMatchLoop ''0001'' cppExampleTable cppUnknown = cppUnknown"
  by code_simp+

section \<open>Properties of the scheduler\<close>

text \<open>
  What a run shows to the outside: the calls of \<^verbatim>\<open>onComplete\<close> and of
  \<^verbatim>\<open>onProgress\<close> in the trace, and the results and the number of rejections among the
  settlements.
\<close>

fun completeCalls :: "(('a, 'r) call \<times> int \<times> nat) list \<Rightarrow> ('r list \<times> int \<times> nat) list" where
  "completeCalls [] = []"
| "completeCalls ((CompleteCall rs, a, n) # tr) = (rs, a, n) # completeCalls tr"
| "completeCalls ((HandlerCall x, a, n) # tr) = completeCalls tr"
| "completeCalls ((ProgressCall s, a, n) # tr) = completeCalls tr"

fun progressCalls :: "(('a, 'r) call \<times> int \<times> nat) list \<Rightarrow> stats list" where
  "progressCalls [] = []"
| "progressCalls ((ProgressCall s, a, n) # tr) = s # progressCalls tr"
| "progressCalls ((HandlerCall x, a, n) # tr) = progressCalls tr"
| "progressCalls ((CompleteCall rs, a, n) # tr) = progressCalls tr"

fun fulfilled :: "'r event list \<Rightarrow> 'r list" where
  "fulfilled [] = []"
| "fulfilled (Settle k (Fulfilled r d) # es) = r # fulfilled es"
| "fulfilled (Settle k Rejected # es) = fulfilled es"

fun rejections :: "'r event list \<Rightarrow> nat" where
  "rejections [] = 0"
| "rejections (Settle k (Fulfilled r d) # es) = rejections es"
| "rejections (Settle k Rejected # es) = Suc (rejections es)"

lemma completeCalls_append [simp]:
  "completeCalls (xs @ ys) = completeCalls xs @ completeCalls ys"
  by (induction xs rule: completeCalls.induct) simp_all

lemma progressCalls_append [simp]:
  "progressCalls (xs @ ys) = progressCalls xs @ progressCalls ys"
  by (induction xs rule: progressCalls.induct) simp_all

lemma length_fulfilled: "length (fulfilled es) + rejections es = length es"
  by (induction es rule: fulfilled.induct) simp_all

text \<open>The state between two turns of the event loop.\<close>

definition invar :: "('a, 'r) taskQueue \<Rightarrow> bool" where
  "invar q \<longleftrightarrow>
     \<not> paused q \<and> 1 \<le> concurrency q
     \<and> activeCount q = int (length (pending q))
     \<and> activeCount q \<le> concurrency q
     \<and> (queue q = [] \<or> activeCount q = concurrency q)"

text \<open>
  Every call in a trace was made with \<^verbatim>\<open>activeCount\<close> between 0 and the limit, and the
  stats passed to \<^verbatim>\<open>onProgress\<close> carry the count and the queue length of that moment.
\<close>

definition snapshotsWithin :: "int \<Rightarrow> (('a, 'r) call \<times> int \<times> nat) list \<Rightarrow> bool" where
  "snapshotsWithin K tr =
     list_all (\<lambda>(c, a, n). 0 \<le> a \<and> a \<le> K
                 \<and> (case c of ProgressCall s \<Rightarrow> st_active s = a \<and> st_queueLen s = n
                             | _ \<Rightarrow> True)) tr"

text \<open>The loop of \<^verbatim>\<open>process\<close>.\<close>

lemma dispatchOne_fields [simp]:
  "concurrency (dispatchOne q) = concurrency q"
  "paused (dispatchOne q) = paused q"
  "results (dispatchOne q) = results q"
  "times (dispatchOne q) = times q"
  "totalTasks (dispatchOne q) = totalTasks q"
  "onProgress (dispatchOne q) = onProgress q"
  "onComplete (dispatchOne q) = onComplete q"
  "activeCount (dispatchOne q) = activeCount q + 1"
  "queue (dispatchOne q) = tl (queue q)"
  "pending (dispatchOne q) = pending q @ [hd (queue q)]"
  "trace (dispatchOne q) =
     trace q @ [(HandlerCall (hd (queue q)), activeCount q + 1, length (queue q) - 1)]"
  by (simp_all add: dispatchOne_def called_def Let_def)

lemma fillSlots_step:
  "activeCount q < concurrency q \<Longrightarrow> queue q \<noteq> [] \<Longrightarrow> fillSlots q = fillSlots (dispatchOne q)"
  by (subst fillSlots.simps) simp

lemma fillSlots_stop:
  "\<not> (activeCount q < concurrency q \<and> queue q \<noteq> []) \<Longrightarrow> fillSlots q = q"
  by (subst fillSlots.simps) auto

lemma fillSlots_frame:
  "concurrency (fillSlots q) = concurrency q
   \<and> paused (fillSlots q) = paused q
   \<and> results (fillSlots q) = results q
   \<and> times (fillSlots q) = times q
   \<and> totalTasks (fillSlots q) = totalTasks q
   \<and> onProgress (fillSlots q) = onProgress q
   \<and> onComplete (fillSlots q) = onComplete q"
proof (induction q rule: fillSlots.induct)
  case (1 q)
  show ?case
  proof (cases "activeCount q < concurrency q \<and> queue q \<noteq> []")
    case True
    then have "fillSlots q = fillSlots (dispatchOne q)" by (simp add: fillSlots_step)
    with "1.IH" True show ?thesis by simp
  next
    case False
    then show ?thesis by (simp add: fillSlots_stop)
  qed
qed

lemmas fillSlots_fields [simp] =
  fillSlots_frame[THEN conjunct1]
  fillSlots_frame[THEN conjunct2, THEN conjunct1]
  fillSlots_frame[THEN conjunct2, THEN conjunct2, THEN conjunct1]
  fillSlots_frame[THEN conjunct2, THEN conjunct2, THEN conjunct2, THEN conjunct1]
  fillSlots_frame[THEN conjunct2, THEN conjunct2, THEN conjunct2, THEN conjunct2, THEN conjunct1]
  fillSlots_frame[THEN conjunct2, THEN conjunct2, THEN conjunct2, THEN conjunct2, THEN conjunct2, THEN conjunct1]
  fillSlots_frame[THEN conjunct2, THEN conjunct2, THEN conjunct2, THEN conjunct2, THEN conjunct2, THEN conjunct2]

lemma fillSlots_pending_queue:
  "pending (fillSlots q) @ queue (fillSlots q) = pending q @ queue q"
proof (induction q rule: fillSlots.induct)
  case (1 q)
  show ?case
  proof (cases "activeCount q < concurrency q \<and> queue q \<noteq> []")
    case True
    then have "fillSlots q = fillSlots (dispatchOne q)" by (simp add: fillSlots_step)
    with "1.IH" True show ?thesis by simp
  next
    case False
    then show ?thesis by (simp add: fillSlots_stop)
  qed
qed

lemma fillSlots_active:
  "activeCount q = int (length (pending q)) \<Longrightarrow>
   activeCount (fillSlots q) = int (length (pending (fillSlots q)))"
proof (induction q rule: fillSlots.induct)
  case (1 q)
  show ?case
  proof (cases "activeCount q < concurrency q \<and> queue q \<noteq> []")
    case True
    then have "fillSlots q = fillSlots (dispatchOne q)" by (simp add: fillSlots_step)
    with "1.IH" "1.prems" True show ?thesis by simp
  next
    case False
    then show ?thesis using "1.prems" by (simp add: fillSlots_stop)
  qed
qed

lemma fillSlots_bound:
  "activeCount q \<le> concurrency q \<Longrightarrow>
   activeCount q \<le> activeCount (fillSlots q) \<and> activeCount (fillSlots q) \<le> concurrency q
   \<and> (queue (fillSlots q) = [] \<or> activeCount (fillSlots q) = concurrency q)"
proof (induction q rule: fillSlots.induct)
  case (1 q)
  show ?case
  proof (cases "activeCount q < concurrency q \<and> queue q \<noteq> []")
    case True
    then have "fillSlots q = fillSlots (dispatchOne q)" by (simp add: fillSlots_step)
    with "1.IH" "1.prems" True show ?thesis by simp
  next
    case False
    then show ?thesis using "1.prems" by (auto simp: fillSlots_stop)
  qed
qed

text \<open>The loop only calls the handler, and every call it makes sees a count within the limit.\<close>

lemma fillSlots_trace:
  "\<exists>calls. trace (fillSlots q) = trace q @ calls
      \<and> completeCalls calls = [] \<and> progressCalls calls = []
      \<and> (activeCount q \<le> concurrency q \<and> 0 \<le> activeCount q \<longrightarrow>
            snapshotsWithin (concurrency q) calls)"
proof (induction q rule: fillSlots.induct)
  case (1 q)
  show ?case
  proof (cases "activeCount q < concurrency q \<and> queue q \<noteq> []")
    case True
    then have eq: "fillSlots q = fillSlots (dispatchOne q)" by (simp add: fillSlots_step)
    from "1.IH" True obtain calls where
      c: "trace (fillSlots (dispatchOne q)) = trace (dispatchOne q) @ calls"
        "completeCalls calls = []" "progressCalls calls = []"
        "activeCount (dispatchOne q) \<le> concurrency (dispatchOne q) \<and> 0 \<le> activeCount (dispatchOne q)
          \<longrightarrow> snapshotsWithin (concurrency (dispatchOne q)) calls"
      by auto
    show ?thesis
      by (rule exI[of _ "(HandlerCall (hd (queue q)), activeCount q + 1, length (queue q) - 1) # calls"])
         (use c True eq in \<open>auto simp: snapshotsWithin_def\<close>)
  next
    case False
    then show ?thesis by (simp add: fillSlots_stop snapshotsWithin_def)
  qed
qed


text \<open>\<^verbatim>\<open>process\<close> as a whole.\<close>

lemma called_fields [simp]:
  "concurrency (called c q) = concurrency q"
  "paused (called c q) = paused q"
  "results (called c q) = results q"
  "times (called c q) = times q"
  "totalTasks (called c q) = totalTasks q"
  "onProgress (called c q) = onProgress q"
  "onComplete (called c q) = onComplete q"
  "activeCount (called c q) = activeCount q"
  "queue (called c q) = queue q"
  "pending (called c q) = pending q"
  "trace (called c q) = trace q @ [(c, activeCount q, length (queue q))]"
  by (simp_all add: called_def)

lemma process_frame [simp]:
  "concurrency (process q) = concurrency q"
  "paused (process q) = paused q"
  "results (process q) = results q"
  "times (process q) = times q"
  "totalTasks (process q) = totalTasks q"
  "onProgress (process q) = onProgress q"
  "onComplete (process q) = onComplete q"
  by (simp_all add: process_def Let_def)

lemma process_pending_queue:
  "pending (process q) @ queue (process q) = pending q @ queue q"
  using fillSlots_pending_queue[of q] by (auto simp: process_def Let_def)

lemma process_invar:
  assumes "\<not> paused q" and "1 \<le> concurrency q"
    and "activeCount q = int (length (pending q))" and "activeCount q \<le> concurrency q"
  shows "invar (process q)"
  using assms fillSlots_active[of q] fillSlots_bound[of q]
  by (auto simp: process_def Let_def invar_def)

lemma process_trace:
  assumes "\<not> paused q" and "1 \<le> concurrency q"
    and "activeCount q = int (length (pending q))" and "activeCount q \<le> concurrency q"
    and "onComplete q"
  shows "\<exists>calls. trace (process q) = trace q @ calls
           \<and> progressCalls calls = []
           \<and> completeCalls calls =
               (if pending (process q) = [] then [(results q, 0, 0)] else [])
           \<and> snapshotsWithin (concurrency q) calls"
proof -
  from fillSlots_trace[of q] obtain calls where
    c: "trace (fillSlots q) = trace q @ calls" "completeCalls calls = []"
       "progressCalls calls = []" "snapshotsWithin (concurrency q) calls"
    using assms by auto
  have a: "activeCount (fillSlots q) = int (length (pending (fillSlots q)))"
    using assms by (simp add: fillSlots_active)
  have b: "queue (fillSlots q) = [] \<or> activeCount (fillSlots q) = concurrency q"
    using assms fillSlots_bound[of q] by simp
  show ?thesis
  proof (cases "pending (fillSlots q) = []")
    case True
    then have "activeCount (fillSlots q) = 0" and "queue (fillSlots q) = []"
      using a b assms by auto
    then show ?thesis
      using True c assms
      by (intro exI[of _ "calls @ [(CompleteCall (results q), 0, 0)]"])
         (simp add: process_def Let_def snapshotsWithin_def)
  next
    case False
    then have "activeCount (fillSlots q) \<noteq> 0" using a by simp
    then show ?thesis
      using False c assms
      by (intro exI[of _ calls]) (simp add: process_def Let_def)
  qed
qed

text \<open>The sliding window of the last 50 durations.\<close>

definition window :: "real list \<Rightarrow> real \<Rightarrow> real list" where
  "window ts duration =
     (if length (ts @ [duration]) > 50 then tl (ts @ [duration]) else ts @ [duration])"

definition progressStats :: "('a, 'r) taskQueue \<Rightarrow> real \<Rightarrow> stats" where
  "progressStats q duration =
     \<lparr>st_completed = length (results q) + 1, st_total = totalTasks q,
      st_active = activeCount q - 1, st_queueLen = length (queue q),
      st_avgTime = getAverageTime (q\<lparr>times := window (times q) duration\<rparr>)\<rparr>"

lemma getAverageTime_times:
  "times q = times q' \<Longrightarrow> getAverageTime q = getAverageTime q'"
  by (simp add: getAverageTime_def)

text \<open>A settlement is a change of the counters followed by \<^verbatim>\<open>process\<close>.\<close>

lemma progressStats_pending [simp]:
  "progressStats (q\<lparr>pending := p\<rparr>) d = progressStats q d"
  by (simp add: progressStats_def getAverageTime_def)

lemma onFulfilled_eq:
  assumes "onProgress q"
  shows "onFulfilled r d q =
           process (called (ProgressCall (progressStats q d))
             (q\<lparr>activeCount := activeCount q - 1, results := results q @ [r],
                times := window (times q) d\<rparr>))"
proof (cases "length (times q @ [d]) > 50")
  case True
  then show ?thesis using assms
    by (simp add: onFulfilled_def Let_def window_def progressStats_def getAverageTime_def)
next
  case False
  then show ?thesis using assms
    by (simp add: onFulfilled_def Let_def window_def progressStats_def getAverageTime_def)
qed

lemma settle_as_process:
  assumes inv: "invar q" and cb: "onComplete q" "onProgress q"
    and s: "settle (Settle k out) q = Some q'"
  shows "\<exists>q2 pc. q' = process q2
          \<and> \<not> paused q2 \<and> 1 \<le> concurrency q2
          \<and> activeCount q2 = int (length (pending q2)) \<and> activeCount q2 \<le> concurrency q2
          \<and> onComplete q2 \<and> onProgress q2
          \<and> concurrency q2 = concurrency q \<and> totalTasks q2 = totalTasks q
          \<and> results q2 = results q @ fulfilled [Settle k out]
          \<and> length (pending q2) + 1 = length (pending q) \<and> queue q2 = queue q
          \<and> trace q2 = trace q @ pc
          \<and> completeCalls pc = []
          \<and> progressCalls pc =
               (case out of Fulfilled r d \<Rightarrow> [progressStats q d] | Rejected \<Rightarrow> [])
          \<and> snapshotsWithin (concurrency q) pc"
proof -
  from s have k: "k < length (pending q)" by (simp split: if_splits)
  define p where "p = take k (pending q) @ drop (k + 1) (pending q)"
  have lp: "length p + 1 = length (pending q)" using k by (simp add: p_def)
  from inv have np: "\<not> paused q" and K: "1 \<le> concurrency q"
    and ac: "activeCount q = int (length (pending q))" and le: "activeCount q \<le> concurrency q"
    by (simp_all add: invar_def)
  show ?thesis
  proof (cases out)
    case Rejected
    define q1 where "q1 = q\<lparr>pending := p, activeCount := activeCount q - 1\<rparr>"
    have q': "q' = process q1"
      using s k Rejected by (simp add: onRejected_def q1_def p_def)
    show ?thesis
      by (rule exI[of _ q1], rule exI[of _ "[]"])
         (use q' np K ac le lp cb Rejected in \<open>simp add: q1_def snapshotsWithin_def\<close>)
  next
    case (Fulfilled r d)
    define q2 where "q2 = called (ProgressCall (progressStats q d))
        (q\<lparr>pending := p, activeCount := activeCount q - 1,
           results := results q @ [r], times := window (times q) d\<rparr>)"
    have "q' = onFulfilled r d (q\<lparr>pending := p\<rparr>)"
      using s k Fulfilled by (simp add: p_def)
    also have "\<dots> = process q2"
      using cb by (simp add: onFulfilled_eq q2_def)
    finally have q': "q' = process q2" .
    have pos: "0 \<le> activeCount q - 1" using ac lp by linarith
    show ?thesis
      by (rule exI[of _ q2],
          rule exI[of _ "[(ProgressCall (progressStats q d), activeCount q - 1, length (queue q))]"])
         (use q' np K ac le lp cb Fulfilled pos in
           \<open>simp add: q2_def snapshotsWithin_def progressStats_def\<close>)
  qed
qed

lemma snapshotsWithin_append [simp]:
  "snapshotsWithin K (xs @ ys) \<longleftrightarrow> snapshotsWithin K xs \<and> snapshotsWithin K ys"
  by (simp add: snapshotsWithin_def)

lemma settle_props:
  assumes inv: "invar q" and cb: "onComplete q" "onProgress q"
    and s: "settle (Settle k out) q = Some q'"
  shows "invar q'
    \<and> results q' = results q @ fulfilled [Settle k out]
    \<and> length (pending q') + length (queue q') + 1 = length (pending q) + length (queue q)
    \<and> totalTasks q' = totalTasks q \<and> concurrency q' = concurrency q
    \<and> onComplete q' \<and> onProgress q'
    \<and> (\<exists>calls. trace q' = trace q @ calls
           \<and> completeCalls calls = (if pending q' = [] then [(results q', 0, 0)] else [])
           \<and> progressCalls calls =
               (case out of Fulfilled r d \<Rightarrow> [progressStats q d] | Rejected \<Rightarrow> [])
           \<and> snapshotsWithin (concurrency q) calls)"
proof -
  from settle_as_process[OF assms] obtain q2 pc where
    q': "q' = process q2"
    and pre: "\<not> paused q2" "1 \<le> concurrency q2"
      "activeCount q2 = int (length (pending q2))" "activeCount q2 \<le> concurrency q2"
      "onComplete q2"
    and rest: "onProgress q2" "concurrency q2 = concurrency q" "totalTasks q2 = totalTasks q"
      "results q2 = results q @ fulfilled [Settle k out]"
      "length (pending q2) + 1 = length (pending q)" "queue q2 = queue q"
      "trace q2 = trace q @ pc" "completeCalls pc = []"
      "progressCalls pc =
         (case out of Fulfilled r d \<Rightarrow> [progressStats q d] | Rejected \<Rightarrow> [])"
      "snapshotsWithin (concurrency q) pc"
    by blast
  have 1: "invar q'" unfolding q' by (rule process_invar[OF pre(1-4)])
  have 2: "results q' = results q @ fulfilled [Settle k out]"
    by (simp add: q' rest)
  have "length (pending q' @ queue q') = length (pending q2 @ queue q2)"
    unfolding q' by (simp only: process_pending_queue)
  then have 3: "length (pending q') + length (queue q') + 1 = length (pending q) + length (queue q)"
    using rest by simp
  have 4: "totalTasks q' = totalTasks q \<and> concurrency q' = concurrency q
         \<and> onComplete q' \<and> onProgress q'"
    using pre rest by (simp add: q')
  from process_trace[OF pre] obtain calls where
    c: "trace (process q2) = trace q2 @ calls" "progressCalls calls = []"
    "completeCalls calls = (if pending (process q2) = [] then [(results q2, 0, 0)] else [])"
    "snapshotsWithin (concurrency q2) calls"
    by blast
  have 5: "\<exists>calls. trace q' = trace q @ calls
           \<and> completeCalls calls = (if pending q' = [] then [(results q', 0, 0)] else [])
           \<and> progressCalls calls =
               (case out of Fulfilled r d \<Rightarrow> [progressStats q d] | Rejected \<Rightarrow> [])
           \<and> snapshotsWithin (concurrency q) calls"
    using c rest by (intro exI[of _ "pc @ calls"]) (simp add: q')
  show ?thesis using 1 2 3 4 5 by blast
qed


text \<open>Runs.\<close>

lemma run_Cons_pending:
  "run q (e # es) = Some q' \<Longrightarrow> pending q \<noteq> []"
  by (cases e) (auto split: if_splits option.splits)

lemma run_props:
  assumes "invar q" and "onComplete q" and "onProgress q" and "run q evs = Some q'"
  shows "invar q'
    \<and> results q' = results q @ fulfilled evs
    \<and> length (pending q') + length (queue q') + length evs
         = length (pending q) + length (queue q)
    \<and> totalTasks q' = totalTasks q \<and> concurrency q' = concurrency q
    \<and> onComplete q' \<and> onProgress q'
    \<and> (\<exists>calls. trace q' = trace q @ calls
           \<and> completeCalls calls =
                (if evs \<noteq> [] \<and> pending q' = [] then [(results q', 0, 0)] else [])
           \<and> length (progressCalls calls) = length (fulfilled evs)
           \<and> snapshotsWithin (concurrency q) calls)"
  using assms
proof (induction evs arbitrary: q)
  case Nil
  then show ?case by (simp add: snapshotsWithin_def)
next
  case (Cons e es)
  obtain k out where e: "e = Settle k out" by (cases e)
  from Cons.prems(4) obtain q1 where s: "settle (Settle k out) q = Some q1"
    and r: "run q1 es = Some q'"
    by (auto simp: e split: option.splits)
  from settle_props[OF Cons.prems(1-3) s] obtain c1 where
    one: "invar q1" "results q1 = results q @ fulfilled [Settle k out]"
      "length (pending q1) + length (queue q1) + 1 = length (pending q) + length (queue q)"
      "totalTasks q1 = totalTasks q" "concurrency q1 = concurrency q"
      "onComplete q1" "onProgress q1"
    and c1: "trace q1 = trace q @ c1"
      "completeCalls c1 = (if pending q1 = [] then [(results q1, 0, 0)] else [])"
      "progressCalls c1 = (case out of Fulfilled r d \<Rightarrow> [progressStats q d] | Rejected \<Rightarrow> [])"
      "snapshotsWithin (concurrency q) c1"
    by blast
  from Cons.IH[OF one(1) one(6) one(7) r] obtain c2 where
    two: "invar q'" "results q' = results q1 @ fulfilled es"
      "length (pending q') + length (queue q') + length es
         = length (pending q1) + length (queue q1)"
      "totalTasks q' = totalTasks q1" "concurrency q' = concurrency q1"
      "onComplete q'" "onProgress q'"
    and c2: "trace q' = trace q1 @ c2"
      "completeCalls c2 = (if es \<noteq> [] \<and> pending q' = [] then [(results q', 0, 0)] else [])"
      "length (progressCalls c2) = length (fulfilled es)"
      "snapshotsWithin (concurrency q1) c2"
    by blast
  have fl: "length (progressCalls c1) = length (fulfilled [Settle k out])"
    using c1(3) by (cases out) simp_all
  have ff: "fulfilled (Settle k out # es) = fulfilled [Settle k out] @ fulfilled es"
    by (cases out) simp_all
  have cc: "completeCalls (c1 @ c2) =
      (if pending q' = [] then [(results q', 0, 0)] else [])"
  proof (cases es)
    case Nil
    with r have "q' = q1" by simp
    with Nil c1(2) c2(2) show ?thesis by simp
  next
    case (Cons e2 es2)
    with r have "run q1 (e2 # es2) = Some q'" by simp
    then have "pending q1 \<noteq> []" by (rule run_Cons_pending)
    with Cons c1(2) c2(2) show ?thesis by simp
  qed
  show ?case
    apply (intro conjI)
           apply (rule two(1))
          apply (simp add: two(2) one(2) e ff)
         using one(3) two(3) apply simp
        apply (simp add: two(4) one(4))
       apply (simp add: two(5) one(5))
      apply (rule two(6))
     apply (rule two(7))
    apply (rule exI[of _ "c1 @ c2"])
    using c1 c2 cc fl one(5) apply (simp add: e ff)
    done
qed

lemma batch_props:
  assumes "1 \<le> K"
  shows "invar (batch K items :: ('a, 'r) taskQueue)
    \<and> onComplete (batch K items :: ('a, 'r) taskQueue)
    \<and> onProgress (batch K items :: ('a, 'r) taskQueue)
    \<and> results (batch K items :: ('a, 'r) taskQueue) = []
    \<and> pending (batch K items :: ('a, 'r) taskQueue) @ queue (batch K items :: ('a, 'r) taskQueue) = items
    \<and> totalTasks (batch K items :: ('a, 'r) taskQueue) = length items
    \<and> concurrency (batch K items :: ('a, 'r) taskQueue) = K
    \<and> completeCalls (trace (batch K items :: ('a, 'r) taskQueue)) =
         (if items = [] then [([], 0, 0)] else [])
    \<and> progressCalls (trace (batch K items :: ('a, 'r) taskQueue)) = []
    \<and> snapshotsWithin K (trace (batch K items :: ('a, 'r) taskQueue))"
proof -
  define q0 :: "('a, 'r) taskQueue" where "q0 = add items (newQueue K True True)"
  have b: "batch K items = process q0" by (simp add: batch_def start_def q0_def)
  have pre: "\<not> paused q0" "1 \<le> concurrency q0"
    "activeCount q0 = int (length (pending q0))" "activeCount q0 \<le> concurrency q0"
    "onComplete q0"
    using assms by (simp_all add: q0_def add_def newQueue_def)
  have inv: "invar (process q0)" by (rule process_invar[OF pre(1-4)])
  have pq: "pending (process q0) @ queue (process q0) = items"
    by (simp add: process_pending_queue) (simp add: q0_def add_def newQueue_def)
  have empty_iff: "pending (process q0) = [] \<longleftrightarrow> items = []"
  proof
    assume "pending (process q0) = []"
    with inv assms have "queue (process q0) = []" by (auto simp: invar_def q0_def add_def newQueue_def)
    with pq \<open>pending (process q0) = []\<close> show "items = []" by simp
  next
    assume "items = []"
    with pq show "pending (process q0) = []" by simp
  qed
  from process_trace[OF pre] obtain calls where
    c: "trace (process q0) = trace q0 @ calls" "progressCalls calls = []"
    "completeCalls calls = (if pending (process q0) = [] then [(results q0, 0, 0)] else [])"
    "snapshotsWithin (concurrency q0) calls"
    by blast
  have t0: "trace q0 = []" "results q0 = []" "concurrency q0 = K" "totalTasks q0 = length items"
    "onProgress q0"
    by (simp_all add: q0_def add_def newQueue_def)
  show ?thesis
    unfolding b using inv pq c t0 pre(5) empty_iff by simp
qed


lemma batch_run:
  fixes q :: "('a, 'r) taskQueue"
  assumes "1 \<le> K" and "run (batch K items) evs = Some q"
  shows "invar q \<and> concurrency q = K \<and> totalTasks q = length items
    \<and> onComplete q \<and> onProgress q
    \<and> results q = fulfilled evs
    \<and> length (pending q) + length (queue q) + length evs = length items
    \<and> completeCalls (trace q) =
         (if pending q = [] then [(fulfilled evs, 0, 0)] else [])
    \<and> length (progressCalls (trace q)) = length (fulfilled evs)
    \<and> snapshotsWithin K (trace q)"
proof -
  note b = batch_props[OF assms(1), of items, where ?'r = 'r]
  from b have len0: "length (pending (batch K items :: ('a, 'r) taskQueue))
      + length (queue (batch K items :: ('a, 'r) taskQueue)) = length items"
    by (metis length_append)
  from run_props[OF _ _ _ assms(2)] b obtain calls where
    r: "invar q" "results q = fulfilled evs"
      "length (pending q) + length (queue q) + length evs = length items"
      "totalTasks q = length items" "concurrency q = K" "onComplete q" "onProgress q"
    and c: "trace q = trace (batch K items) @ calls"
      "completeCalls calls = (if evs \<noteq> [] \<and> pending q = [] then [(results q, 0, 0)] else [])"
      "length (progressCalls calls) = length (fulfilled evs)"
      "snapshotsWithin K calls"
    using len0 by auto
  have cc: "completeCalls (trace q) = (if pending q = [] then [(fulfilled evs, 0, 0)] else [])"
  proof (cases evs)
    case Nil
    with assms(2) have "q = batch K items" by simp
    with Nil b c show ?thesis
      by (cases "items = []") (auto simp: invar_def)
  next
    case (Cons e es)
    with assms(2) have "run (batch K items) (e # es) = Some q" by simp
    then have "pending (batch K items :: ('a, 'r) taskQueue) \<noteq> []"
      by (rule run_Cons_pending)
    with b have "items \<noteq> []" by auto
    with Cons b c r show ?thesis by simp
  qed
  show ?thesis using r c b cc by simp
qed

text \<open>
  C1: for a batch of \<open>N\<close> items under a limit \<open>K \<ge> 1\<close>, in every run: no more than \<open>N\<close>
  settlements happen; as long as fewer than \<open>N\<close> items have settled, \<^verbatim>\<open>onComplete\<close> has
  not fired and some handler promise is pending (the batch cannot get stuck); once all
  \<open>N\<close> have settled, \<^verbatim>\<open>onComplete\<close> has fired exactly once, at a moment where
  \<^verbatim>\<open>activeCount\<close> was 0 and the queue was empty, with exactly the results of the
  fulfilled handlers in the order of their settlement, whose number is \<open>N\<close> minus the
  number of rejections.
\<close>

theorem onComplete_fires_exactly_once:
  assumes "1 \<le> K" and "run (batch K items) evs = Some q"
  shows "length evs \<le> length items
    \<and> results q = fulfilled evs
    \<and> (length evs < length items \<longrightarrow> completeCalls (trace q) = [] \<and> pending q \<noteq> [])
    \<and> (length evs = length items \<longrightarrow>
          completeCalls (trace q) = [(fulfilled evs, 0, 0)]
          \<and> activeCount q = 0 \<and> queue q = [] \<and> pending q = []
          \<and> length (fulfilled evs) = length items - rejections evs)"
proof -
  from batch_run[OF assms] have
    inv: "invar q" and K: "concurrency q = K"
    and res: "results q = fulfilled evs"
    and len: "length (pending q) + length (queue q) + length evs = length items"
    and cc: "completeCalls (trace q) = (if pending q = [] then [(fulfilled evs, 0, 0)] else [])"
    by simp_all
  have stuck: "pending q = [] \<Longrightarrow> queue q = []"
    using inv assms(1) K by (auto simp: invar_def)
  have a: "length evs \<le> length items" using len by simp
  have b: "completeCalls (trace q) = [] \<and> pending q \<noteq> []" if "length evs < length items"
    using that len stuck cc by auto
  have c: "completeCalls (trace q) = [(fulfilled evs, 0, 0)]
          \<and> activeCount q = 0 \<and> queue q = [] \<and> pending q = []
          \<and> length (fulfilled evs) = length items - rejections evs"
    if "length evs = length items"
    using that len cc inv length_fulfilled[of evs] by (auto simp: invar_def)
  show ?thesis using a res b c by blast
qed

text \<open>
  C3: in every run under a limit \<open>K \<ge> 1\<close>, after every settlement
  \<open>0 \<le> activeCount \<le> K\<close>, and \<^verbatim>\<open>activeCount\<close> is the number of handler invocations
  started and not yet settled; every call the scheduler makes (to the handler inside the
  loop, to \<^verbatim>\<open>onProgress\<close> and to \<^verbatim>\<open>onComplete\<close>) is made at a moment where
  \<open>0 \<le> activeCount \<le> K\<close>, and every stats object passed to \<^verbatim>\<open>onProgress\<close> has its
  \<open>active\<close> field in that range.
\<close>

theorem activeCount_never_exceeds_limit:
  assumes "1 \<le> K" and "run (batch K items) evs = Some q"
  shows "0 \<le> activeCount q \<and> activeCount q \<le> K
    \<and> activeCount q = int (length (pending q))
    \<and> (\<forall>(c, a, n) \<in> set (trace q). 0 \<le> a \<and> a \<le> K)
    \<and> (\<forall>s \<in> set (progressCalls (trace q)). 0 \<le> st_active s \<and> st_active s \<le> K)"
proof -
  from batch_run[OF assms] have
    inv: "invar q" and K: "concurrency q = K" and sw: "snapshotsWithin K (trace q)"
    by simp_all
  have p: "snapshotsWithin K tr \<Longrightarrow>
      (\<forall>(c, a, n) \<in> set tr. 0 \<le> a \<and> a \<le> K)
      \<and> (\<forall>s \<in> set (progressCalls tr). 0 \<le> st_active s \<and> st_active s \<le> K)"
    for tr :: "(('c, 'd) call \<times> int \<times> nat) list"
    by (induction tr rule: progressCalls.induct) (auto simp: snapshotsWithin_def)
  show ?thesis using inv K p[OF sw] by (simp add: invar_def)
qed

text \<open>
  A batch of one item whose handler rejects: the task is dispatched and settles, the
  batch completes, and \<^verbatim>\<open>onProgress\<close> is never called.
\<close>

theorem onProgress_rejection_counterexample:
  "map_option (\<lambda>q. (progressCalls (trace q), pending q, queue q, completeCalls (trace q)))
     (run (batch 1 [''a''] :: (string, nat) taskQueue) [Settle 0 Rejected])
   = Some ([], [], [], [([], 0, 0)])"
  by code_simp

text \<open>The handler calls in a trace.\<close>

fun handlerCalls :: "(('a, 'r) call \<times> int \<times> nat) list \<Rightarrow> 'a list" where
  "handlerCalls [] = []"
| "handlerCalls ((HandlerCall x, a, n) # tr) = x # handlerCalls tr"
| "handlerCalls ((ProgressCall s, a, n) # tr) = handlerCalls tr"
| "handlerCalls ((CompleteCall rs, a, n) # tr) = handlerCalls tr"

lemma handlerCalls_append [simp]:
  "handlerCalls (xs @ ys) = handlerCalls xs @ handlerCalls ys"
  by (induction xs rule: handlerCalls.induct) simp_all

text \<open>
  With one slot free and every other slot taken, \<^verbatim>\<open>process\<close> dispatches the head of
  the queue, if there is one, and nothing else.
\<close>

lemma process_one_slot:
  assumes "\<not> paused q" and "activeCount q + 1 \<le> concurrency q"
    and "queue q = [] \<or> activeCount q + 1 = concurrency q"
  shows "pending (process q) = pending q @ take 1 (queue q)
    \<and> queue (process q) = drop 1 (queue q)
    \<and> activeCount (process q) = activeCount q + int (length (take 1 (queue q)))
    \<and> handlerCalls (trace (process q)) = handlerCalls (trace q) @ take 1 (queue q)"
proof (cases "queue q")
  case Nil
  then have "fillSlots q = q" by (simp add: fillSlots_stop)
  then show ?thesis using Nil assms by (simp add: process_def Let_def)
next
  case (Cons x xs)
  with assms have a: "activeCount q < concurrency q" "queue q \<noteq> []"
    and f: "activeCount q + 1 = concurrency q" by simp_all
  have "fillSlots q = fillSlots (dispatchOne q)" using a by (rule fillSlots_step)
  also have "\<dots> = dispatchOne q" using f by (simp add: fillSlots_stop)
  finally have "fillSlots q = dispatchOne q" .
  then show ?thesis using Cons assms by (simp add: process_def Let_def)
qed

text \<open>What one settlement does to the state.\<close>

lemma settle_state:
  assumes inv: "invar q" and cb: "onProgress q"
    and s: "settle (Settle k out) q = Some q'"
  shows "results q' = (case out of Fulfilled r d \<Rightarrow> results q @ [r] | Rejected \<Rightarrow> results q)
    \<and> times q' = (case out of Fulfilled r d \<Rightarrow> window (times q) d | Rejected \<Rightarrow> times q)
    \<and> pending q' = take k (pending q) @ drop (k + 1) (pending q) @ take 1 (queue q)
    \<and> queue q' = drop 1 (queue q)
    \<and> activeCount q' = activeCount q - 1 + int (length (take 1 (queue q)))
    \<and> handlerCalls (trace q') = handlerCalls (trace q) @ take 1 (queue q)"
proof -
  from s have k: "k < length (pending q)" by (simp split: if_splits)
  define p where "p = take k (pending q) @ drop (k + 1) (pending q)"
  from inv have np: "\<not> paused q"
    and le: "activeCount q \<le> concurrency q"
    and full: "queue q = [] \<or> activeCount q = concurrency q"
    unfolding invar_def by blast+
  show ?thesis
  proof (cases out)
    case Rejected
    define q1 where "q1 = q\<lparr>pending := p, activeCount := activeCount q - 1\<rparr>"
    have q': "q' = process q1"
      using s k Rejected by (simp add: onRejected_def q1_def p_def)
    have "\<not> paused q1" "activeCount q1 + 1 \<le> concurrency q1"
      "queue q1 = [] \<or> activeCount q1 + 1 = concurrency q1"
      using np le full by (simp_all add: q1_def)
    from process_one_slot[OF this] show ?thesis
      using Rejected by (simp add: q' q1_def p_def)
  next
    case (Fulfilled r d)
    define q2 where "q2 = called (ProgressCall (progressStats q d))
        (q\<lparr>pending := p, activeCount := activeCount q - 1,
           results := results q @ [r], times := window (times q) d\<rparr>)"
    have "q' = onFulfilled r d (q\<lparr>pending := p\<rparr>)"
      using s k Fulfilled by (simp add: p_def)
    also have "\<dots> = process q2"
      using cb by (simp add: onFulfilled_eq q2_def)
    finally have q': "q' = process q2" .
    have "\<not> paused q2" "activeCount q2 + 1 \<le> concurrency q2"
      "queue q2 = [] \<or> activeCount q2 + 1 = concurrency q2"
      using np le full by (simp_all add: q2_def)
    from process_one_slot[OF this] show ?thesis
      using Fulfilled by (simp add: q' q2_def p_def)
  qed
qed

lemma run_snoc:
  "run q0 evs = Some q \<Longrightarrow> settle e q = Some q' \<Longrightarrow> run q0 (evs @ [e]) = Some q'"
  by (induction evs arbitrary: q0) (auto split: option.splits)

text \<open>
  C2, amended: the scheduler calls \<^verbatim>\<open>onProgress\<close> after the settlement of every task
  whose handler fulfils, and only then. The turn that settles a fulfilled promise
  appends the result, moves the latency window on by the new duration and makes
  exactly one \<^verbatim>\<open>onProgress\<close> call, with the stats of that moment: the number of
  results including the new one, the total number of tasks, the active count after the
  decrement, the queue length and the average of the latency window including the new
  duration. The turn that settles a rejected promise makes no \<^verbatim>\<open>onProgress\<close> call and
  leaves the results and the latency window as they were. Either way the turn takes the
  settled promise out of the pending ones, decrements \<^verbatim>\<open>activeCount\<close> and goes on with
  the batch: the head of the queue, if there is one, is handed to the handler and takes
  the free slot, and \<^verbatim>\<open>onComplete\<close> has been called exactly when no promise is pending
  any more. So the number of \<^verbatim>\<open>onProgress\<close> calls of a run is its number of
  fulfilments.
\<close>

theorem onProgress_after_fulfilment_only:
  assumes "1 \<le> K" and "run (batch K items) evs = Some q"
    and "settle (Settle k out) q = Some q'"
  shows "length (progressCalls (trace q)) = length (fulfilled evs)
    \<and> totalTasks q = length items
    \<and> (\<exists>calls. trace q' = trace q @ calls
          \<and> progressCalls calls =
               (case out of Fulfilled r d \<Rightarrow> [progressStats q d] | Rejected \<Rightarrow> []))
    \<and> results q' = (case out of Fulfilled r d \<Rightarrow> results q @ [r] | Rejected \<Rightarrow> results q)
    \<and> times q' = (case out of Fulfilled r d \<Rightarrow> window (times q) d | Rejected \<Rightarrow> times q)
    \<and> pending q' = take k (pending q) @ drop (k + 1) (pending q) @ take 1 (queue q)
    \<and> queue q' = drop 1 (queue q)
    \<and> activeCount q' = activeCount q - 1 + int (length (take 1 (queue q)))
    \<and> handlerCalls (trace q') = handlerCalls (trace q) @ take 1 (queue q)
    \<and> completeCalls (trace q') = (if pending q' = [] then [(results q', 0, 0)] else [])"
proof -
  from batch_run[OF assms(1,2)] have
    inv: "invar q" and cb: "onComplete q" "onProgress q"
    and n: "length (progressCalls (trace q)) = length (fulfilled evs)"
    and tt: "totalTasks q = length items"
    by simp_all
  have r': "run (batch K items) (evs @ [Settle k out]) = Some q'"
    using assms(2,3) by (rule run_snoc)
  from batch_run[OF assms(1) r'] have
    cc: "completeCalls (trace q') = (if pending q' = [] then [(results q', 0, 0)] else [])"
    by simp
  from settle_props[OF inv cb assms(3)] have
    pc: "\<exists>calls. trace q' = trace q @ calls
          \<and> progressCalls calls =
               (case out of Fulfilled r d \<Rightarrow> [progressStats q d] | Rejected \<Rightarrow> [])"
    by blast
  from settle_state[OF inv cb(2) assms(3)] n tt pc cc show ?thesis by blast
qed



text \<open>
  A batch of ten items under the limit 3, with eight fulfilments and two rejections,
  settling out of submission order.
\<close>

definition items10 :: "nat list" where
  "items10 = [1, 2, 3, 4, 5, 6, 7, 8, 9, 10]"

definition evs10 :: "string event list" where
  "evs10 =
     [Settle 0 (Fulfilled ''one'' 5), Settle 1 Rejected, Settle 2 (Fulfilled ''five'' 7),
      Settle 0 (Fulfilled ''two'' 9), Settle 1 (Fulfilled ''six'' 4), Settle 2 Rejected,
      Settle 0 (Fulfilled ''four'' 6), Settle 2 (Fulfilled ''ten'' 3),
      Settle 1 (Fulfilled ''nine'' 8), Settle 0 (Fulfilled ''eight'' 2)]"

text \<open>The runs below are runs of the scheduler: every settlement names a pending promise.\<close>

lemma run10_defined: "run (batch 3 items10 :: (nat, string) taskQueue) evs10 \<noteq> None"
  by code_simp

lemma run4_defined: "run (batch 3 items10 :: (nat, string) taskQueue) (take 4 evs10) \<noteq> None"
  by code_simp

theorem onComplete_fires_exactly_once_witness:
  "\<exists>q. run (batch 3 items10 :: (nat, string) taskQueue) evs10 = Some q
       \<and> completeCalls (trace q) =
            [([''one'', ''five'', ''two'', ''six'', ''four'', ''ten'', ''nine'', ''eight''], 0, 0)]
       \<and> activeCount q = 0 \<and> queue q = [] \<and> pending q = []
       \<and> length (results q) = 10 - 2"
proof -
  from run10_defined obtain q :: "(nat, string) taskQueue"
    where q: "run (batch 3 items10) evs10 = Some q" by auto
  have l: "length evs10 = length items10" by (simp add: evs10_def items10_def)
  have f: "fulfilled evs10 =
      [''one'', ''five'', ''two'', ''six'', ''four'', ''ten'', ''nine'', ''eight'']"
    by (simp add: evs10_def)
  from onComplete_fires_exactly_once[OF _ q] l f show ?thesis
    using q by simp
qed

theorem activeCount_never_exceeds_limit_witness:
  "\<exists>q. run (batch 3 items10 :: (nat, string) taskQueue) (take 4 evs10) = Some q
       \<and> 0 \<le> activeCount q \<and> activeCount q \<le> 3
       \<and> length (pending q) \<le> 3
       \<and> list_all (\<lambda>(c, a, n). 0 \<le> a \<and> a \<le> 3) (trace q)
       \<and> list_all (\<lambda>s. 0 \<le> st_active s \<and> st_active s \<le> 3) (progressCalls (trace q))"
proof -
  from run4_defined obtain q :: "(nat, string) taskQueue"
    where q: "run (batch 3 items10) (take 4 evs10) = Some q" by auto
  from activeCount_never_exceeds_limit[OF _ q] show ?thesis
    using q by (auto simp: list_all_iff)
qed

lemma settle5_defined:
  "(case run (batch 3 items10 :: (nat, string) taskQueue) (take 4 evs10) of
      None \<Rightarrow> None | Some q \<Rightarrow> settle (Settle 1 (Fulfilled ''six'' 4)) q) \<noteq> None"
  "(case run (batch 3 items10 :: (nat, string) taskQueue) (take 4 evs10) of
      None \<Rightarrow> None | Some q \<Rightarrow> settle (Settle 2 Rejected) q) \<noteq> None"
  by code_simp+

lemma run4_state:
  "map_option (\<lambda>q. (pending q, queue q, times q, activeCount q))
     (run (batch 3 items10 :: (nat, string) taskQueue) (take 4 evs10))
   = Some ([4, 6, 7], [8, 9, 10], [5, 7, 9], 3)"
  by code_simp

theorem onProgress_after_fulfilment_only_witness:
  "\<exists>q q1 q2. run (batch 3 items10 :: (nat, string) taskQueue) (take 4 evs10) = Some q
       \<and> settle (Settle 1 (Fulfilled ''six'' 4)) q = Some q1
       \<and> settle (Settle 2 Rejected) q = Some q2
       \<and> length (progressCalls (trace q)) = 3
       \<and> progressCalls (trace q1) = progressCalls (trace q) @ [progressStats q 4]
       \<and> st_completed (progressStats q 4) = 4 \<and> st_total (progressStats q 4) = 10
       \<and> st_active (progressStats q 4) = 2 \<and> st_queueLen (progressStats q 4) = 3
       \<and> st_avgTime (progressStats q 4) = 25 / 4
       \<and> results q1 = results q @ [''six''] \<and> times q1 = [5, 7, 9, 4]
       \<and> progressCalls (trace q2) = progressCalls (trace q)
       \<and> results q2 = results q \<and> times q2 = times q
       \<and> pending q = [4, 6, 7] \<and> pending q2 = [4, 6, 8] \<and> queue q2 = [9, 10]
       \<and> activeCount q2 = 3
       \<and> handlerCalls (trace q2) = handlerCalls (trace q) @ [8]
       \<and> completeCalls (trace q2) = []"
proof -
  from run4_defined obtain q :: "(nat, string) taskQueue"
    where q: "run (batch 3 items10) (take 4 evs10) = Some q" by auto
  from settle5_defined q obtain q1 q2 where
    s1: "settle (Settle 1 (Fulfilled ''six'' 4)) q = Some q1"
    and s2: "settle (Settle 2 Rejected) q = Some q2"
    by auto
  have f: "fulfilled (take 4 evs10) = [''one'', ''five'', ''two'']"
    by (simp add: evs10_def)
  have st: "pending q = [4, 6, 7]" "queue q = [8, 9, 10]" "times q = [5, 7, 9]"
    "activeCount q = 3"
    using run4_state q by simp_all
  have "results q = fulfilled (take 4 evs10)"
    using batch_run[OF _ q] by simp
  then have c: "st_completed (progressStats q 4) = 4"
    by (simp add: progressStats_def f)
  have a: "st_avgTime (progressStats q 4) = 25 / 4"
    by (simp add: progressStats_def getAverageTime_def window_def st)
  from onProgress_after_fulfilment_only[OF _ q s1]
    onProgress_after_fulfilment_only[OF _ q s2]
  show ?thesis
    using q s1 s2 f c a st by (auto simp: progressStats_def items10_def window_def)
qed

section \<open>Properties of the naming resolver\<close>

text \<open>The decimal rendering of a number is not empty, and it determines the number.\<close>

lemma toString10_nonempty: "toString10 n \<noteq> []"
  by (subst toString10.simps) simp

lemma distinct_decDigits: "distinct decDigits"
  by code_simp

lemma length_decDigits: "length decDigits = 10"
  by (simp add: decDigits_def units_def)

lemma toString10_inj: "toString10 n = toString10 m \<Longrightarrow> n = m"
proof (induction n arbitrary: m rule: less_induct)
  case (less n)
  show ?case
  proof (cases "n < 10")
    case True
    show ?thesis
    proof (cases "m < 10")
      case mlt: True
      from less.prems True mlt have "decDigits ! n = decDigits ! m"
        by (simp add: toString10.simps[of n] toString10.simps[of m])
      then show ?thesis
        using True mlt distinct_decDigits length_decDigits
        by (simp add: nth_eq_iff_index_eq)
    next
      case False
      have "length (toString10 m) \<ge> 2"
        using False toString10_nonempty[of "m div 10"]
        by (subst toString10.simps) (cases "toString10 (m div 10)"; simp)
      moreover have "length (toString10 n) = 1"
        using True by (subst toString10.simps) simp
      ultimately show ?thesis using less.prems by simp
    qed
  next
    case False
    show ?thesis
    proof (cases "m < 10")
      case True
      have "length (toString10 n) \<ge> 2"
        using False toString10_nonempty[of "n div 10"]
        by (subst toString10.simps) (cases "toString10 (n div 10)"; simp)
      moreover have "length (toString10 m) = 1"
        using True by (subst toString10.simps) simp
      ultimately show ?thesis using less.prems by simp
    next
      case mge: False
      from less.prems False mge
      have eq: "toString10 (n div 10) @ [decDigits ! (n mod 10)] =
                toString10 (m div 10) @ [decDigits ! (m mod 10)]"
        by (simp add: toString10.simps[of n] toString10.simps[of m])
      then have a: "toString10 (n div 10) = toString10 (m div 10)"
        and b: "decDigits ! (n mod 10) = decDigits ! (m mod 10)" by simp_all
      have "n div 10 < n" using False by simp
      with less.IH a have d: "n div 10 = m div 10" by blast
      from b have e: "n mod 10 = m mod 10"
        using distinct_decDigits length_decDigits
        by (simp add: nth_eq_iff_index_eq)
      have "n = n div 10 * 10 + n mod 10" by presburger
      also have "\<dots> = m div 10 * 10 + m mod 10" by (simp only: d e)
      also have "\<dots> = m" by presburger
      finally show ?thesis .
    qed
  qed
qed

lemma set_toString10: "set (toString10 n) \<subseteq> set decDigits"
proof (induction n rule: less_induct)
  case (less n)
  show ?case
  proof (cases "n < 10")
    case True
    then show ?thesis
      by (subst toString10.simps) (simp add: length_decDigits)
  next
    case False
    then have "n div 10 < n" by simp
    with less.IH have "set (toString10 (n div 10)) \<subseteq> set decDigits" by blast
    moreover have "decDigits ! (n mod 10) \<in> set decDigits"
      by (simp add: length_decDigits)
    ultimately show ?thesis using False
      by (subst toString10.simps) simp
  qed
qed

text \<open>The two parts of a sanitized name between which the counter is inserted.\<close>

definition stem :: "ustring \<Rightarrow> ustring" where
  "stem s = (if lastIndexOf s 0x2E > 0 then take (nat (lastIndexOf s 0x2E)) s else s)"

definition ending :: "ustring \<Rightarrow> ustring" where
  "ending s = (if lastIndexOf s 0x2E > 0 then drop (nat (lastIndexOf s 0x2E)) s else [])"

lemma withCounter_parts:
  "withCounter s c = stem s @ units ''_'' @ toString10 c @ ending s"
  by (simp add: withCounter_def Let_def stem_def ending_def)

lemma stem_ending: "stem s @ ending s = s"
  by (simp add: stem_def ending_def)

lemma length_withCounter: "length (withCounter s c) = length s + 1 + length (toString10 c)"
  using arg_cong[OF stem_ending[of s], of length]
  by (simp add: withCounter_parts units_def)

text \<open>
  What the resolver needs of \<^verbatim>\<open>toLowerCase\<close>: two candidates that differ in the
  counter, and a name and a candidate made from it, are still different in lower case.
\<close>

definition respectsCounters :: "(ustring \<Rightarrow> ustring) \<Rightarrow> bool" where
  "respectsCounters lower \<longleftrightarrow>
     (\<forall>s c c'. lower (withCounter s c) = lower (withCounter s c') \<longrightarrow> c = c')
     \<and> (\<forall>s c. lower (withCounter s c) \<noteq> lower s)"

text \<open>
  The claimed names that a candidate of the current or a later counter would hit; each
  round of the loop that hits one leaves one fewer.
\<close>

definition laterClaimed ::
  "(ustring \<Rightarrow> ustring) \<Rightarrow> ustring list \<Rightarrow> ustring \<Rightarrow> nat \<Rightarrow> ustring set" where
  "laterClaimed lower folderSet safeName counter =
     {s \<in> set folderSet. \<exists>c\<ge>counter. s = lower (withCounter safeName c)}"

lemma finite_laterClaimed: "finite (laterClaimed lower S s c)"
  by (simp add: laterClaimed_def)

lemma laterClaimed_mono: "laterClaimed lower S s (Suc c) \<subseteq> laterClaimed lower S s c"
  by (auto simp: laterClaimed_def) (metis Suc_leD)

lemma laterClaimed_less:
  assumes "respectsCounters lower" and "lower (withCounter s c) \<in> set S"
  shows "card (laterClaimed lower S s (Suc c)) < card (laterClaimed lower S s c)"
proof (rule psubset_card_mono[OF finite_laterClaimed])
  have "lower (withCounter s c) \<in> laterClaimed lower S s c"
    using assms(2) by (auto simp: laterClaimed_def)
  moreover have "lower (withCounter s c) \<notin> laterClaimed lower S s (Suc c)"
  proof
    assume "lower (withCounter s c) \<in> laterClaimed lower S s (Suc c)"
    then obtain c' where le: "Suc c \<le> c'"
      and eq: "lower (withCounter s c) = lower (withCounter s c')"
      by (auto simp: laterClaimed_def)
    from assms(1) eq have "c = c'" unfolding respectsCounters_def by blast
    with le show False by simp
  qed
  ultimately show "laterClaimed lower S s (Suc c) \<subset> laterClaimed lower S s c"
    using laterClaimed_mono[of lower S s c] by blast
qed

text \<open>The duplicate loop ends.\<close>

lemma findFreeName_returns:
  assumes "respectsCounters lower"
  shows "\<exists>name. findFreeName lower S s fin c = Some name"
proof (induction "2 * card (laterClaimed lower S s c) + (if lower fin \<in> set S then 1 else 0)"
    arbitrary: fin c rule: less_induct)
  case less
  show ?case
  proof (cases "lower fin \<in> set S")
    case False
    then show ?thesis by (subst findFreeName.simps) simp
  next
    case True
    have "2 * card (laterClaimed lower S s (c + 1))
            + (if lower (withCounter s c) \<in> set S then 1 else 0)
          < 2 * card (laterClaimed lower S s c) + (if lower fin \<in> set S then 1 else 0)"
    proof (cases "lower (withCounter s c) \<in> set S")
      case hit: True
      from laterClaimed_less[OF assms hit] show ?thesis using True hit by simp
    next
      case miss: False
      have "card (laterClaimed lower S s (Suc c)) \<le> card (laterClaimed lower S s c)"
        by (rule card_mono[OF finite_laterClaimed laterClaimed_mono])
      then show ?thesis using True miss by simp
    qed
    from less[OF this] obtain name where
      "findFreeName lower S s (withCounter s c) (c + 1) = Some name" by blast
    then show ?thesis using True by (subst findFreeName.simps) simp
  qed
qed

text \<open>The name the duplicate loop returns is not claimed.\<close>

lemma findFreeName_free:
  assumes "findFreeName lower S s fin c = Some name"
  shows "lower name \<notin> set S"
  by (rule findFreeName.raw_induct[where P = "\<lambda>lower S s fin c name. lower name \<notin> set S",
        OF _ assms])
     (auto split: if_splits)

text \<open>The claimed names of a folder.\<close>

definition claimed :: "(ustring \<rightharpoonup> ustring list) \<Rightarrow> ustring \<Rightarrow> ustring list" where
  "claimed usedNames folder = (case usedNames folder of None \<Rightarrow> [] | Some s \<Rightarrow> s)"

text \<open>A finished job as the pair that must be unique: the folder and the lower-cased name.\<close>

definition slot :: "(ustring \<Rightarrow> ustring) \<Rightarrow> 'f readyJob \<Rightarrow> ustring \<times> ustring" where
  "slot lower r = (rj_folderName r, lower (rj_finalName r))"

text \<open>One round of the loop over the jobs.\<close>

lemma resolveLoop_skip:
  "store (wj_fileName job) = None \<Longrightarrow>
   resolveLoop lower store clock i used (job # jobs) = resolveLoop lower store clock (i + 1) used jobs"
  by simp

lemma resolveLoop_step:
  assumes "store (wj_fileName job) = Some originalFile"
    and "findFreeName lower (claimed used (wj_folderName job))
           (safeNameOf (clock i) (wj_fileName job)) (safeNameOf (clock i) (wj_fileName job)) 1
         = Some finalName"
  shows "resolveLoop lower store clock i used (job # jobs) =
     map_option
       (\<lambda>readyJobs. \<lparr>rj_folderName = wj_folderName job, rj_finalName = finalName,
                       rj_fileBlob = originalFile\<rparr> # readyJobs)
       (resolveLoop lower store clock (i + 1)
          (used(wj_folderName job \<mapsto> claimed used (wj_folderName job) @ [lower finalName])) jobs)"
  using assms by (simp add: Let_def claimed_def map_option_case)

lemma resolveLoop_Some:
  assumes "resolveLoop lower store clock i used (job # jobs) = Some rs"
    and "store (wj_fileName job) = Some originalFile"
  shows "\<exists>finalName rest.
      findFreeName lower (claimed used (wj_folderName job))
        (safeNameOf (clock i) (wj_fileName job)) (safeNameOf (clock i) (wj_fileName job)) 1
      = Some finalName
      \<and> resolveLoop lower store clock (i + 1)
          (used(wj_folderName job \<mapsto> claimed used (wj_folderName job) @ [lower finalName])) jobs
        = Some rest
      \<and> rs = \<lparr>rj_folderName = wj_folderName job, rj_finalName = finalName,
               rj_fileBlob = originalFile\<rparr> # rest"
  using assms by (auto simp: Let_def claimed_def split: option.splits)

text \<open>
  The loop over the jobs never gives a slot twice, and never a slot that was claimed
  before it started.
\<close>

lemma resolveLoop_slots:
  "resolveLoop lower store clock i used jobs = Some rs \<Longrightarrow>
   distinct (map (slot lower) rs)
   \<and> (\<forall>r\<in>set rs. snd (slot lower r) \<notin> set (claimed used (fst (slot lower r))))"
proof (induction jobs arbitrary: i used rs)
  case Nil
  then show ?case by simp
next
  case (Cons job jobs)
  show ?case
  proof (cases "store (wj_fileName job)")
    case None
    with Cons.prems have "resolveLoop lower store clock (i + 1) used jobs = Some rs" by simp
    then show ?thesis by (rule Cons.IH)
  next
    case (Some originalFile)
    define folderSet where "folderSet = claimed used (wj_folderName job)"
    from resolveLoop_Some[OF Cons.prems Some] obtain finalName rest where
      fin: "findFreeName lower folderSet (safeNameOf (clock i) (wj_fileName job))
              (safeNameOf (clock i) (wj_fileName job)) 1 = Some finalName"
      and rest: "resolveLoop lower store clock (i + 1)
          (used(wj_folderName job \<mapsto> folderSet @ [lower finalName])) jobs = Some rest"
      and rs: "rs = \<lparr>rj_folderName = wj_folderName job, rj_finalName = finalName,
               rj_fileBlob = originalFile\<rparr> # rest"
      unfolding folderSet_def by blast
    define used' where "used' = used(wj_folderName job \<mapsto> folderSet @ [lower finalName])"
    define r0 where "r0 = \<lparr>rj_folderName = wj_folderName job, rj_finalName = finalName,
               rj_fileBlob = originalFile\<rparr>"
    have free: "lower finalName \<notin> set folderSet"
      using fin by (rule findFreeName_free)
    have cl: "set (claimed used' f) =
        (if f = wj_folderName job then insert (lower finalName) (set folderSet)
         else set (claimed used f))" for f
      by (auto simp: used'_def claimed_def folderSet_def split: option.splits)
    from Cons.IH[OF rest[folded used'_def]] have
      d: "distinct (map (slot lower) rest)"
      and n: "\<forall>r\<in>set rest. snd (slot lower r) \<notin> set (claimed used' (fst (slot lower r)))"
      by simp_all
    have s0: "slot lower r0 = (wj_folderName job, lower finalName)"
      by (simp add: slot_def r0_def)
    have notin: "slot lower r0 \<notin> set (map (slot lower) rest)"
    proof
      assume "slot lower r0 \<in> set (map (slot lower) rest)"
      then obtain r where r: "r \<in> set rest" and "slot lower r = slot lower r0" by auto
      with n have "snd (slot lower r0) \<notin> set (claimed used' (fst (slot lower r0)))" by metis
      then show False by (simp add: s0 cl)
    qed
    have old: "\<forall>r\<in>set rest. snd (slot lower r) \<notin> set (claimed used (fst (slot lower r)))"
    proof
      fix r assume "r \<in> set rest"
      with n have "snd (slot lower r) \<notin> set (claimed used' (fst (slot lower r)))" by blast
      then show "snd (slot lower r) \<notin> set (claimed used (fst (slot lower r)))"
        by (auto simp: cl folderSet_def split: if_splits)
    qed
    show ?thesis
      unfolding rs r0_def[symmetric] using d notin old free
      by (simp add: s0 folderSet_def)
  qed
qed

text \<open>The loop over the jobs ends.\<close>

lemma resolveLoop_returns:
  assumes "respectsCounters lower"
  shows "\<exists>rs. resolveLoop lower store clock i used jobs = Some rs"
proof (induction jobs arbitrary: i used)
  case Nil
  show ?case by simp
next
  case (Cons job jobs)
  show ?case
  proof (cases "store (wj_fileName job)")
    case None
    then show ?thesis using Cons.IH[of "i + 1" used] by simp
  next
    case (Some originalFile)
    from findFreeName_returns[OF assms] obtain finalName where
      fin: "findFreeName lower (claimed used (wj_folderName job))
           (safeNameOf (clock i) (wj_fileName job)) (safeNameOf (clock i) (wj_fileName job)) 1
         = Some finalName" by blast
    from Cons.IH obtain rest where
      "resolveLoop lower store clock (i + 1)
          (used(wj_folderName job \<mapsto> claimed used (wj_folderName job) @ [lower finalName])) jobs
       = Some rest" by blast
    then show ?thesis
      unfolding resolveLoop_step[where store = store and lower = lower and used = used
        and clock = clock and i = i and job = job, OF Some fin] by simp
  qed
qed

text \<open>When every job's file is in the store, every job gets a name, in input order.\<close>

lemma resolveLoop_all_present:
  "resolveLoop lower store clock i used jobs = Some rs \<Longrightarrow>
   \<forall>job\<in>set jobs. store (wj_fileName job) \<noteq> None \<Longrightarrow>
   map rj_folderName rs = map wj_folderName jobs"
proof (induction jobs arbitrary: i used rs)
  case Nil
  then show ?case by simp
next
  case (Cons job jobs)
  from Cons.prems(2) obtain originalFile where st: "store (wj_fileName job) = Some originalFile"
    by auto
  from resolveLoop_Some[OF Cons.prems(1) st] obtain finalName rest where
    rest: "resolveLoop lower store clock (i + 1)
          (used(wj_folderName job \<mapsto> claimed used (wj_folderName job) @ [lower finalName])) jobs
        = Some rest"
    and rs: "rs = \<lparr>rj_folderName = wj_folderName job, rj_finalName = finalName,
               rj_fileBlob = originalFile\<rparr> # rest"
    by blast
  from Cons.IH[OF rest] Cons.prems(2) show ?case by (simp add: rs)
qed

lemma resolveLoop_folders:
  "resolveLoop lower store clock i used jobs = Some rs \<Longrightarrow>
   set (map rj_folderName rs) \<subseteq> set (map wj_folderName jobs)"
proof (induction jobs arbitrary: i used rs)
  case Nil
  then show ?case by simp
next
  case (Cons job jobs)
  show ?case
  proof (cases "store (wj_fileName job)")
    case None
    with Cons.prems have "resolveLoop lower store clock (i + 1) used jobs = Some rs" by simp
    from Cons.IH[OF this] show ?thesis by auto
  next
    case (Some originalFile)
    from resolveLoop_Some[OF Cons.prems Some] obtain finalName rest where
      rest: "resolveLoop lower store clock (i + 1)
          (used(wj_folderName job \<mapsto> claimed used (wj_folderName job) @ [lower finalName])) jobs
        = Some rest"
      and rs: "rs = \<lparr>rj_folderName = wj_folderName job, rj_finalName = finalName,
               rj_fileBlob = originalFile\<rparr> # rest"
      by blast
    from Cons.IH[OF rest] show ?thesis by (auto simp: rs)
  qed
qed

text \<open>A sanitized name that the loop replaces by a time stamp.\<close>

definition isBlank :: "ustring \<Rightarrow> bool" where
  "isBlank s \<longleftrightarrow> s = [] \<or> trim s = []"

lemma safeNameOf_not_blank:
  "\<not> isBlank (sanitize name) \<Longrightarrow> safeNameOf now name = sanitize name"
  by (simp add: safeNameOf_def isBlank_def Let_def)

text \<open>The clock is read only for a blank name.\<close>

lemma resolveLoop_clock:
  "\<forall>job\<in>set jobs. \<not> isBlank (sanitize (wj_fileName job)) \<Longrightarrow>
   resolveLoop lower store clock i used jobs = resolveLoop lower store clock' i' used jobs"
proof (induction jobs arbitrary: i i' used)
  case Nil
  show ?case by simp
next
  case (Cons job jobs)
  then have nb: "\<not> isBlank (sanitize (wj_fileName job))"
    and rest: "\<forall>job\<in>set jobs. \<not> isBlank (sanitize (wj_fileName job))"
    by simp_all
  show ?case
    using Cons.IH[OF rest, of "i + 1" _ "i' + 1"]
    by (simp add: safeNameOf_not_blank[OF nb] Let_def split: option.splits)
qed

text \<open>The \<open>k\<close>-th name given to a sanitized name \<open>s\<close> in one folder.\<close>

definition nameAt :: "ustring \<Rightarrow> nat \<Rightarrow> ustring" where
  "nameAt s k = (if k = 0 then s else withCounter s k)"

lemma lower_nameAt_inj:
  assumes "respectsCounters lower" and "lower (nameAt s a) = lower (nameAt s b)"
  shows "a = b"
  using assms unfolding respectsCounters_def nameAt_def
  by (cases "a = 0"; cases "b = 0") (auto, metis+)

text \<open>
  The duplicate loop walks through the counters until the first candidate that is not
  claimed.
\<close>

lemma findFreeName_skip:
  assumes "c \<le> k"
    and "\<forall>c'. c \<le> c' \<and> c' < k \<longrightarrow> lower (withCounter s c') \<in> set S"
    and "lower (withCounter s k) \<notin> set S"
  shows "findFreeName lower S s (withCounter s c) (c + 1) = Some (withCounter s k)"
  using assms
proof (induction "k - c" arbitrary: c)
  case 0
  then have "c = k" by simp
  with 0 show ?case by (subst findFreeName.simps) simp
next
  case (Suc d)
  then have lt: "c < k" by simp
  with Suc.prems have "lower (withCounter s c) \<in> set S" by simp
  moreover have "findFreeName lower S s (withCounter s (c + 1)) (c + 1 + 1) = Some (withCounter s k)"
  proof (rule Suc.hyps(1))
    show "d = k - (c + 1)" using Suc.hyps(2) by simp
    show "c + 1 \<le> k" using lt by simp
    show "\<forall>c'. c + 1 \<le> c' \<and> c' < k \<longrightarrow> lower (withCounter s c') \<in> set S"
      using Suc.prems(2) by simp
    show "lower (withCounter s k) \<notin> set S" by (rule Suc.prems(3))
  qed
  ultimately show ?case by (subst findFreeName.simps) simp
qed

lemma findFreeName_nameAt:
  assumes "respectsCounters lower"
  shows "findFreeName lower (map (\<lambda>j. lower (nameAt s j)) [0..<k]) s s 1 = Some (nameAt s k)"
proof (cases "k = 0")
  case True
  then show ?thesis by (subst findFreeName.simps) (simp add: nameAt_def)
next
  case False
  define S where "S = map (\<lambda>j. lower (nameAt s j)) [0..<k]"
  have mem: "lower (nameAt s j) \<in> set S \<longleftrightarrow> j < k" for j
  proof
    assume "lower (nameAt s j) \<in> set S"
    then obtain j' where "j' < k" and "lower (nameAt s j) = lower (nameAt s j')"
      by (auto simp: S_def)
    then show "j < k" using lower_nameAt_inj[OF assms, of s j j'] by simp
  next
    assume "j < k"
    then show "lower (nameAt s j) \<in> set S" by (simp add: S_def)
  qed
  have n0: "nameAt s 0 = s" by (simp add: nameAt_def)
  have nk: "nameAt s j = withCounter s j" if "1 \<le> j" for j
    using that by (simp add: nameAt_def)
  have "lower (nameAt s 0) \<in> set S" using mem[of 0] False by blast
  then have s: "lower s \<in> set S" by (simp only: n0)
  have "findFreeName lower S s (withCounter s 1) (1 + 1) = Some (withCounter s k)"
  proof (rule findFreeName_skip)
    show "1 \<le> k" using False by simp
    show "\<forall>c'. 1 \<le> c' \<and> c' < k \<longrightarrow> lower (withCounter s c') \<in> set S"
    proof (intro allI impI)
      fix c' assume c: "1 \<le> c' \<and> c' < k"
      then have "lower (nameAt s c') \<in> set S" using mem[of c'] by blast
      then show "lower (withCounter s c') \<in> set S" using c by (simp only: nk)
    qed
    have "lower (nameAt s k) \<notin> set S" using mem[of k] by blast
    then show "lower (withCounter s k) \<notin> set S" using False by (simp add: nk)
  qed
  moreover have "findFreeName lower S s s 1 =
      (if lower s \<in> set S then findFreeName lower S s (withCounter s 1) (1 + 1) else Some s)"
    by (rule findFreeName.simps)
  ultimately have "findFreeName lower S s s 1 = Some (withCounter s k)" using s by simp
  then show ?thesis using False by (simp add: S_def nk)
qed

lemma resolveLoop_identical:
  assumes "respectsCounters lower"
    and "\<forall>job\<in>set jobs. wj_folderName job = folder
             \<and> store (wj_fileName job) \<noteq> None
             \<and> sanitize (wj_fileName job) = s"
    and "\<not> isBlank s"
    and "claimed used folder = map (\<lambda>j. lower (nameAt s j)) [0..<k]"
  shows "map_option (map rj_finalName) (resolveLoop lower store clock i used jobs) =
           Some (map (nameAt s) [k..<k + length jobs])"
  using assms(2-4)
proof (induction jobs arbitrary: i used k)
  case Nil
  show ?case by simp
next
  case (Cons job jobs)
  from Cons.prems(1) obtain originalFile where
    f: "wj_folderName job = folder" and st: "store (wj_fileName job) = Some originalFile"
    and sn: "sanitize (wj_fileName job) = s"
    by auto
  have safe: "safeNameOf (clock i) (wj_fileName job) = s"
    using Cons.prems(2) sn safeNameOf_not_blank[of "wj_fileName job"] by simp
  have fin: "findFreeName lower (claimed used (wj_folderName job))
           (safeNameOf (clock i) (wj_fileName job)) (safeNameOf (clock i) (wj_fileName job)) 1
         = Some (nameAt s k)"
    unfolding safe f Cons.prems(3) by (rule findFreeName_nameAt[OF assms(1)])
  define used' where "used' = used(folder \<mapsto>
      map (\<lambda>j. lower (nameAt s j)) [0..<k] @ [lower (nameAt s k)])"
  have step: "resolveLoop lower store clock i used (job # jobs) =
     map_option
       (\<lambda>readyJobs. \<lparr>rj_folderName = folder, rj_finalName = nameAt s k,
                       rj_fileBlob = originalFile\<rparr> # readyJobs)
       (resolveLoop lower store clock (i + 1) used' jobs)"
    unfolding resolveLoop_step[where store = store and lower = lower and used = used
        and clock = clock and i = i and job = job, OF st fin] used'_def f
      Cons.prems(3) ..
  have cl': "claimed used' folder = map (\<lambda>j. lower (nameAt s j)) [0..<Suc k]"
    by (simp add: used'_def claimed_def)
  have ih: "map_option (map rj_finalName) (resolveLoop lower store clock (i + 1) used' jobs) =
          Some (map (nameAt s) [Suc k..<Suc k + length jobs])"
    using Cons.prems(1,2) by (intro Cons.IH[OF _ _ cl']) simp_all
  have up: "[k..<k + Suc (length jobs)] = k # [Suc k..<k + Suc (length jobs)]"
    by (rule upt_conv_Cons) simp
  from ih obtain rest where
    r: "resolveLoop lower store clock (i + 1) used' jobs = Some rest"
    and m: "map rj_finalName rest = map (nameAt s) [Suc k..<Suc k + length jobs]"
    by auto
  show ?case
    unfolding step r using m up by simp
qed

lemma resolveNames_same_folder:
  assumes "resolveNames lower store clock jobs = Some rs"
    and "\<forall>job\<in>set jobs. wj_folderName job = folder"
  shows "distinct (map (\<lambda>r. lower (rj_finalName r)) rs)"
proof -
  have d: "distinct (map (slot lower) rs)"
    using resolveLoop_slots[of lower store clock 0 Map.empty jobs rs] assms(1)
    by (simp add: resolveNames_def)
  have "set (map rj_folderName rs) \<subseteq> set (map wj_folderName jobs)"
    using assms(1) unfolding resolveNames_def by (rule resolveLoop_folders)
  with assms(2) have f: "\<forall>r\<in>set rs. rj_folderName r = folder" by auto
  have s: "slot lower r = (folder, lower (rj_finalName r))" if "r \<in> set rs" for r
    using f that by (simp add: slot_def)
  from d have "distinct rs" and inj: "inj_on (slot lower) (set rs)"
    by (simp_all add: distinct_map)
  have "inj_on (\<lambda>r. lower (rj_finalName r)) (set rs)"
  proof (rule inj_onI)
    fix x y assume x: "x \<in> set rs" and y: "y \<in> set rs"
      and "lower (rj_finalName x) = lower (rj_finalName y)"
    then have "slot lower x = slot lower y" by (simp add: s)
    with inj x y show "x = y" by (auto dest: inj_onD)
  qed
  with \<open>distinct rs\<close> show ?thesis
    by (simp add: distinct_map)
qed

text \<open>
  C4, amended. What is used of \<^verbatim>\<open>toLowerCase\<close> is that it keeps the candidates of
  the duplicate loop apart (\<open>respectsCounters\<close>), as it does: it changes neither the
  underscore nor a digit. Then, for any list of jobs: the resolver ends; the finalized
  names are pairwise distinct within each destination folder when compared in lower
  case, so the names of jobs that all target one folder are pairwise distinct in lower
  case; when every job's file is in \<^verbatim>\<open>currentFileData\<close>, every job gets a name, in
  input order (so \<open>N\<close> jobs get \<open>N\<close> names); the result is a function of the input list
  alone as long as no sanitized name is blank (a blank name is replaced by
  \<^verbatim>\<open>unnamed_\<close> followed by the current time, so for such a name the result depends on
  the clock as well); and jobs that target one folder and share one sanitized name \<open>s\<close>
  that is not blank get \<open>s\<close> itself, then \<open>s\<close> with \<open>_1\<close>, \<open>_2\<close>, ... inserted before
  its last dot (appended when \<open>s\<close> has no dot after its first code unit).
\<close>

theorem naming_resolver_distinct_names:
  assumes "respectsCounters lower"
  shows "\<exists>rs. resolveNames lower store clock jobs = Some rs
     \<and> distinct (map (slot lower) rs)
     \<and> ((\<forall>job\<in>set jobs. wj_folderName job = folder) \<longrightarrow>
          distinct (map (\<lambda>r. lower (rj_finalName r)) rs))
     \<and> ((\<forall>job\<in>set jobs. store (wj_fileName job) \<noteq> None) \<longrightarrow>
          map rj_folderName rs = map wj_folderName jobs)
     \<and> ((\<forall>job\<in>set jobs. \<not> isBlank (sanitize (wj_fileName job))) \<longrightarrow>
          resolveNames lower store clock' jobs = Some rs)
     \<and> ((\<forall>job\<in>set jobs. wj_folderName job = folder
              \<and> store (wj_fileName job) \<noteq> None
              \<and> sanitize (wj_fileName job) = s)
          \<and> \<not> isBlank s \<longrightarrow>
          map rj_finalName rs = map (nameAt s) [0..<length jobs])"
proof -
  from resolveLoop_returns[OF assms] obtain rs where
    rs: "resolveNames lower store clock jobs = Some rs"
    unfolding resolveNames_def by blast
  have a: "distinct (map (slot lower) rs)"
    using resolveLoop_slots[of lower store clock 0 Map.empty jobs rs] rs
    by (simp add: resolveNames_def)
  have b: "map rj_folderName rs = map wj_folderName jobs"
    if "\<forall>job\<in>set jobs. store (wj_fileName job) \<noteq> None"
    using rs that unfolding resolveNames_def by (rule resolveLoop_all_present)
  have c: "resolveNames lower store clock' jobs = Some rs"
    if "\<forall>job\<in>set jobs. \<not> isBlank (sanitize (wj_fileName job))"
    using resolveLoop_clock[OF that, of lower store clock' 0 Map.empty clock 0] rs
    by (simp add: resolveNames_def)
  have d: "map rj_finalName rs = map (nameAt s) [0..<length jobs]"
    if "\<forall>job\<in>set jobs. wj_folderName job = folder
            \<and> store (wj_fileName job) \<noteq> None
            \<and> sanitize (wj_fileName job) = s" and "\<not> isBlank s"
    using resolveLoop_identical[OF assms that, of Map.empty 0 clock 0] rs
    by (simp add: resolveNames_def claimed_def)
  show ?thesis
    using rs a b c d resolveNames_same_folder[OF rs, of folder] by blast
qed


text \<open>
  An instance: \<^verbatim>\<open>toLowerCase\<close> on the code units below \<open>0x100\<close> (Basic Latin and
  Latin-1 Supplement), where it moves \<open>A\<close> to \<open>Z\<close> and \<open>U+00C0\<close> to \<open>U+00DE\<close>, except
  the multiplication sign \<open>U+00D7\<close>, up by \<open>0x20\<close>; other code units are left alone.
\<close>

definition lowerLatin1 :: "ustring \<Rightarrow> ustring" where
  "lowerLatin1 s =
     map (\<lambda>c. if (0x41 \<le> c \<and> c \<le> 0x5A) \<or> (0xC0 \<le> c \<and> c \<le> 0xDE \<and> c \<noteq> 0xD7)
               then c + 0x20 else c) s"

lemma lowerLatin1_append: "lowerLatin1 (a @ b) = lowerLatin1 a @ lowerLatin1 b"
  by (simp add: lowerLatin1_def)

lemma length_lowerLatin1: "length (lowerLatin1 s) = length s"
  by (simp add: lowerLatin1_def)

lemma lowerLatin1_decDigits: "\<forall>c\<in>set decDigits. lowerLatin1 [c] = [c]"
  by code_simp

lemma lowerLatin1_toString10: "lowerLatin1 (toString10 n) = toString10 n"
proof -
  have "\<forall>c\<in>set (toString10 n). lowerLatin1 [c] = [c]"
    using set_toString10[of n] lowerLatin1_decDigits by blast
  then show ?thesis
    unfolding lowerLatin1_def by (simp add: map_idI)
qed

lemma respectsCounters_lowerLatin1: "respectsCounters lowerLatin1"
  unfolding respectsCounters_def
proof (intro conjI allI impI)
  fix s c c'
  assume "lowerLatin1 (withCounter s c) = lowerLatin1 (withCounter s c')"
  then have "toString10 c = toString10 c'"
    unfolding withCounter_parts lowerLatin1_append lowerLatin1_toString10
      same_append_eq append_same_eq .
  then show "c = c'" by (rule toString10_inj)
next
  fix s c
  show "lowerLatin1 (withCounter s c) \<noteq> lowerLatin1 s"
  proof
    assume "lowerLatin1 (withCounter s c) = lowerLatin1 s"
    then have "length (lowerLatin1 (withCounter s c)) = length (lowerLatin1 s)" by simp
    then show False by (simp add: length_lowerLatin1 length_withCounter)
  qed
qed

definition jobFor :: "string \<Rightarrow> ustring \<Rightarrow> writeJob" where
  "jobFor folder name = \<lparr>wj_folderName = units folder, wj_fileName = name\<rparr>"

definition storeOf :: "ustring list \<Rightarrow> (ustring \<rightharpoonup> nat)" where
  "storeOf names = map_of (zip names [0..<length names])"

text \<open>
  A file whose name is two spaces: its sanitized name is blank, so the resolver names it
  after the time of the call. The same input resolved at two different times gets two
  different names.
\<close>

theorem naming_resolver_clock_counterexample:
  "map_option (map rj_finalName)
     (resolveNames lowerLatin1 (storeOf [units ''  '']) (\<lambda>i. 1000) [jobFor ''PNG'' (units ''  '')])
     = Some [units ''unnamed_1000'']
   \<and> map_option (map rj_finalName)
     (resolveNames lowerLatin1 (storeOf [units ''  '']) (\<lambda>i. 2000) [jobFor ''PNG'' (units ''  '')])
     = Some [units ''unnamed_2000'']
   \<and> units ''unnamed_1000'' \<noteq> units ''unnamed_2000''"
  by code_simp

lemma report_names:
  "sanitize (units ''report.txt'') = units ''report.txt''"
  "\<not> isBlank (units ''report.txt'')"
  "nameAt (units ''report.txt'') 0 = units ''report.txt''"
  "nameAt (units ''report.txt'') (Suc 0) = units ''report_1.txt''"
  "nameAt (units ''report.txt'') (Suc (Suc 0)) = units ''report_2.txt''"
  "storeOf [units ''report.txt''] (units ''report.txt'') \<noteq> None"
  by code_simp+

text \<open>
  Names that differ only in case, among them a pair outside ASCII (\<open>U+00C9\<close> and
  \<open>U+00E9\<close>, followed by \<^verbatim>\<open>.txt\<close>): the second of each pair gets a suffix.
\<close>

lemma mixed_case_names:
  "map_option (map rj_finalName)
     (resolveNames lowerLatin1
        (storeOf [units ''a.txt'', units ''A.TXT'', 0xC9 # units ''.txt'', 0xE9 # units ''.txt''])
        (\<lambda>i. 1000)
        [jobFor ''Text'' (units ''a.txt''), jobFor ''Text'' (units ''A.TXT''),
         jobFor ''Text'' (0xC9 # units ''.txt''), jobFor ''Text'' (0xE9 # units ''.txt'')])
   = Some [units ''a.txt'', units ''A_1.TXT'', 0xC9 # units ''.txt'', 0xE9 # units ''_1.txt'']"
  by code_simp

text \<open>
  Three files named \<^verbatim>\<open>report.txt\<close> organized into one folder get the names
  \<^verbatim>\<open>report.txt\<close>, \<^verbatim>\<open>report_1.txt\<close> and \<^verbatim>\<open>report_2.txt\<close>, at whatever time.
\<close>

theorem naming_resolver_distinct_names_witness:
  "\<exists>rs. resolveNames lowerLatin1 (storeOf [units ''report.txt'']) (\<lambda>i. 1000)
          [jobFor ''Text'' (units ''report.txt''), jobFor ''Text'' (units ''report.txt''),
           jobFor ''Text'' (units ''report.txt'')] = Some rs
     \<and> map rj_finalName rs = [units ''report.txt'', units ''report_1.txt'', units ''report_2.txt'']
     \<and> distinct (map (\<lambda>r. lowerLatin1 (rj_finalName r)) rs)
     \<and> length rs = 3
     \<and> resolveNames lowerLatin1 (storeOf [units ''report.txt'']) (\<lambda>i. 2000)
          [jobFor ''Text'' (units ''report.txt''), jobFor ''Text'' (units ''report.txt''),
           jobFor ''Text'' (units ''report.txt'')] = Some rs"
proof -
  let ?jobs = "[jobFor ''Text'' (units ''report.txt''), jobFor ''Text'' (units ''report.txt''),
           jobFor ''Text'' (units ''report.txt'')]"
  let ?store = "storeOf [units ''report.txt''] :: ustring \<rightharpoonup> nat"
  have h1: "\<forall>job\<in>set ?jobs. wj_folderName job = units ''Text''"
    by (simp add: jobFor_def)
  have h2: "\<forall>job\<in>set ?jobs. ?store (wj_fileName job) \<noteq> None"
    by (simp add: jobFor_def report_names)
  have h3: "\<forall>job\<in>set ?jobs. \<not> isBlank (sanitize (wj_fileName job))"
    by (simp add: jobFor_def report_names)
  have h4: "(\<forall>job\<in>set ?jobs. wj_folderName job = units ''Text''
            \<and> ?store (wj_fileName job) \<noteq> None
            \<and> sanitize (wj_fileName job) = units ''report.txt'')
        \<and> \<not> isBlank (units ''report.txt'')"
    by (simp add: jobFor_def report_names)
  from naming_resolver_distinct_names[OF respectsCounters_lowerLatin1, of ?store "\<lambda>i. 1000" ?jobs
      "units ''Text''" "\<lambda>i. 2000" "units ''report.txt''"]
  obtain rs where rs: "resolveNames lowerLatin1 ?store (\<lambda>i. 1000) ?jobs = Some rs"
    and d: "(\<forall>job\<in>set ?jobs. wj_folderName job = units ''Text'') \<longrightarrow>
          distinct (map (\<lambda>r. lowerLatin1 (rj_finalName r)) rs)"
    and n: "(\<forall>job\<in>set ?jobs. ?store (wj_fileName job) \<noteq> None) \<longrightarrow>
          map rj_folderName rs = map wj_folderName ?jobs"
    and c: "(\<forall>job\<in>set ?jobs. \<not> isBlank (sanitize (wj_fileName job))) \<longrightarrow>
          resolveNames lowerLatin1 ?store (\<lambda>i. 2000) ?jobs = Some rs"
    and m: "(\<forall>job\<in>set ?jobs. wj_folderName job = units ''Text''
              \<and> ?store (wj_fileName job) \<noteq> None
              \<and> sanitize (wj_fileName job) = units ''report.txt'')
          \<and> \<not> isBlank (units ''report.txt'') \<longrightarrow>
          map rj_finalName rs = map (nameAt (units ''report.txt'')) [0..<length ?jobs]"
    by blast
  from m h4 have "map rj_finalName rs = map (nameAt (units ''report.txt'')) [0..<length ?jobs]"
    by blast
  also have "\<dots> = [units ''report.txt'', units ''report_1.txt'', units ''report_2.txt'']"
    by (simp add: report_names upt_rec)
  finally have names: "map rj_finalName rs =
      [units ''report.txt'', units ''report_1.txt'', units ''report_2.txt'']" .
  from n h2 have "length (map rj_folderName rs) = length (map wj_folderName ?jobs)" by simp
  then have len: "length rs = 3" by simp
  from d h1 have d': "distinct (map (\<lambda>r. lowerLatin1 (rj_finalName r)) rs)" by blast
  from c h3 have c': "resolveNames lowerLatin1 ?store (\<lambda>i. 2000) ?jobs = Some rs" by blast
  show ?thesis
    by (rule exI[of _ rs]) (simp only: rs names len d' c' simp_thms)
qed

end
